theory Spec2Isabelle
  imports Main "HOL-Library.AList"
begin

section \<open>JavaScript values\<close>

text \<open>
  The values that flow through the event chain engine.  An object
  (\<^verbatim>\<open>Record<string, any>\<close>) is an association list in insertion order, with one
  entry for each key; numbers are integers.  Functions are not values of the model, so
  no value is a thenable: a handler that returns a promise says so in its completion
  (see below).
\<close>

datatype jsval =
    Undefined
  | Null
  | Bool bool
  | Num int
  | Str string
  | Obj "(string \<times> jsval) list"
  | Arr "jsval list"

type_synonym props = "(string \<times> jsval) list"

text \<open>JavaScript truthiness (\<^verbatim>\<open>if (v)\<close>, \<^verbatim>\<open>v || d\<close>, \<^verbatim>\<open>a && b\<close>).\<close>

fun truthy :: "jsval \<Rightarrow> bool" where
  "truthy Undefined = False"
| "truthy Null = False"
| "truthy (Bool b) = b"
| "truthy (Num n) = (n \<noteq> 0)"
| "truthy (Str s) = (s \<noteq> [])"
| "truthy (Obj kvs) = True"
| "truthy (Arr vs) = True"

text \<open>\<^verbatim>\<open>typeof v === "object" && v !== null\<close>\<close>

fun is_object :: "jsval \<Rightarrow> bool" where
  "is_object (Obj kvs) = True"
| "is_object (Arr vs) = True"
| "is_object v = False"

text \<open>Property read \<^verbatim>\<open>o.k\<close>: \<^verbatim>\<open>undefined\<close> when the key is absent.\<close>

definition get_prop :: "props \<Rightarrow> string \<Rightarrow> jsval" where
  "get_prop obj k = (case map_of obj k of None \<Rightarrow> Undefined | Some v \<Rightarrow> v)"

text \<open>
  Object spread \<^verbatim>\<open>{...a, ...b}\<close>: the entries of \<open>a\<close>, each key of \<open>b\<close>
  overwriting in place or appended.  \<^verbatim>\<open>{...a, k: v}\<close> is \<open>AList.update k v a\<close>.
\<close>

definition spread :: "props \<Rightarrow> props \<Rightarrow> props" where
  "spread a b = foldl (\<lambda>acc (k, v). AList.update k v acc) a b"

section \<open>Handlers and listeners\<close>

text \<open>
  A handler has the signature \<^verbatim>\<open>(props, next, stop) => any\<close>.  The engine sees of
  one invocation only the calls it makes to \<^verbatim>\<open>next\<close> and \<^verbatim>\<open>stop\<close> and how it
  ends, so a handler is a function from the execution context it receives to that
  conduct:
  \<^item> \<open>body\<close>: the calls made synchronously, before the handler returns or throws
    (\<^verbatim>\<open>next()\<close> is \<open>CallNext None\<close>, \<^verbatim>\<open>next(o)\<close> is \<open>CallNext (Some o)\<close>, as
    \<^verbatim>\<open>next: (nextProps?: Record<string, any>) => void\<close> declares);
  \<^item> \<open>ending\<close>: a returned value that is not a promise, a thrown error, or a returned
    promise with the time (in ms after the dispatch) at which it settles and how
    (\<open>None\<close>: it never settles);
  \<^item> \<open>deferred\<close>: the calls made later, from timers or from the asynchronous part of
    the handler, each with its time in ms after the dispatch.  A deferred call at a time
    up to the settling time of the promise happens before the wrapper resumes.

  What a handler does to the rest of the application, and calls it makes back into the
  bridge (declaring or consuming a chain from inside a handler), are not part of a
  conduct.
\<close>

datatype action = CallNext "props option" | CallStop

datatype settle = Resolves jsval | Rejects jsval

datatype completion =
    Returns jsval
  | Throws jsval
  | ReturnsPromise "(nat \<times> settle) option"

record conduct =
  body :: "action list"
  ending :: completion
  deferred :: "(nat \<times> action) list"

type_synonym UIEventHandler = "props \<Rightarrow> conduct"

text \<open>
  One invocation of the continuation: when (0 is synchronously, during \<^verbatim>\<open>emit\<close>;
  \<open>Suc t\<close> is \<open>t\<close> ms later), with which argument, and by whom.
\<close>

datatype caller = ByHandler | ByWrapper

record invocation =
  time :: nat
  arg :: jsval
  origin :: caller

datatype diagnostic =
    Warn_not_found string
  | Log_consuming string nat
  | Error_in_handler string jsval

text \<open>
  What one listener of the emitter does when it is called with \<open>(props, next)\<close>: its
  invocations of \<open>next\<close>, each with its time, what it writes to the console, and the
  error it throws synchronously out of \<^verbatim>\<open>emit\<close>, if any.
\<close>

record listener_run =
  calls :: "invocation list"
  errors :: "diagnostic list"
  raised :: "jsval option"

type_synonym listener = "props \<Rightarrow> listener_run"

definition SLEEP_EVENT :: string where
  "SLEEP_EVENT = ''__SLEEP__''"

text \<open>The calls of \<^verbatim>\<open>next\<close> among a handler's own actions.\<close>

definition next_arg :: "props option \<Rightarrow> jsval" where
  "next_arg p = (case p of None \<Rightarrow> Undefined | Some obj \<Rightarrow> Obj obj)"

definition body_calls :: "action list \<Rightarrow> invocation list" where
  "body_calls acts =
     concat (map (\<lambda>a. case a of
        CallNext p \<Rightarrow> [\<lparr>time = 0, arg = next_arg p, origin = ByHandler\<rparr>]
      | CallStop \<Rightarrow> []) acts)"

definition deferred_calls :: "(nat \<times> action) list \<Rightarrow> invocation list" where
  "deferred_calls tacts =
     concat (map (\<lambda>(t, a). case a of
        CallNext p \<Rightarrow> [\<lparr>time = Suc t, arg = next_arg p, origin = ByHandler\<rparr>]
      | CallStop \<Rightarrow> []) tacts)"

text \<open>
  \<^verbatim>\<open>UIBridge.on\<close>, the wrapper (\<^verbatim>\<open>wrappedCallback\<close>).  \<open>isStopped\<close> is read
  after the handler's synchronous body and, when a promise was awaited, again when the
  wrapper resumes.
\<close>

definition wrappedCallback :: "string \<Rightarrow> UIEventHandler \<Rightarrow> listener" where
  "wrappedCallback event callback props =
    (let c = callback props;
         isStopped = (CallStop \<in> set (body c));
         made = body_calls (body c)
     in case ending c of
       Throws error \<Rightarrow>
         \<lparr>calls = made
            @ (if \<not> isStopped then [\<lparr>time = 0, arg = Obj props, origin = ByWrapper\<rparr>] else [])
            @ deferred_calls (deferred c),
          errors = [Error_in_handler event error],
          raised = None\<rparr>
     | Returns result \<Rightarrow>
         if isStopped then
           \<lparr>calls = made @ deferred_calls (deferred c), errors = [], raised = None\<rparr>
         else if result \<noteq> Undefined then
           (if is_object result then
              \<lparr>calls = made @ [\<lparr>time = 0, arg = result, origin = ByWrapper\<rparr>]
                 @ deferred_calls (deferred c),
               errors = [], raised = None\<rparr>
            else
              \<lparr>calls = made
                 @ [\<lparr>time = 0, arg = Obj [(''value'', result), (''prev'', Obj props)],
                     origin = ByWrapper\<rparr>]
                 @ deferred_calls (deferred c),
               errors = [], raised = None\<rparr>)
         else
           \<lparr>calls = made @ [\<lparr>time = 0, arg = Obj props, origin = ByWrapper\<rparr>]
              @ deferred_calls (deferred c),
            errors = [], raised = None\<rparr>
     | ReturnsPromise None \<Rightarrow>
         \<lparr>calls = made @ deferred_calls (deferred c), errors = [], raised = None\<rparr>
     | ReturnsPromise (Some (t, s)) \<Rightarrow>
         if isStopped then
           \<lparr>calls = made @ deferred_calls (deferred c), errors = [], raised = None\<rparr>
         else
           (let early = filter (\<lambda>(t', a). t' \<le> t) (deferred c);
                late = filter (\<lambda>(t', a). \<not> t' \<le> t) (deferred c);
                isStopped' = (CallStop \<in> snd ` set early)
            in case s of
              Resolves awaited \<Rightarrow>
                if isStopped' then
                  \<lparr>calls = made @ deferred_calls (deferred c), errors = [], raised = None\<rparr>
                else if awaited \<noteq> Undefined then
                  (if is_object awaited then
                     \<lparr>calls = made @ deferred_calls early
                        @ [\<lparr>time = Suc t, arg = awaited, origin = ByWrapper\<rparr>]
                        @ deferred_calls late,
                      errors = [], raised = None\<rparr>
                   else
                     \<lparr>calls = made @ deferred_calls early
                        @ [\<lparr>time = Suc t,
                            arg = Obj [(''value'', awaited), (''prev'', Obj props)],
                            origin = ByWrapper\<rparr>]
                        @ deferred_calls late,
                      errors = [], raised = None\<rparr>)
                else
                  \<lparr>calls = made @ deferred_calls early
                     @ [\<lparr>time = Suc t, arg = Obj props, origin = ByWrapper\<rparr>]
                     @ deferred_calls late,
                   errors = [], raised = None\<rparr>
            | Rejects error \<Rightarrow>
                \<lparr>calls = made @ deferred_calls early
                   @ (if \<not> isStopped' then [\<lparr>time = Suc t, arg = Obj props, origin = ByWrapper\<rparr>]
                      else [])
                   @ deferred_calls late,
                 errors = [Error_in_handler event error],
                 raised = None\<rparr>))"

section \<open>The dispatch substrate and the built-in delay handler\<close>

text \<open>
  The emitter (the eventemitter3 package, not part of the repository) keeps for each
  event name its listeners in registration order.  \<^verbatim>\<open>emit\<close> calls them in that
  order with the same arguments; a listener that throws ends the dispatch, and the error
  leaves \<^verbatim>\<open>emit\<close>.
\<close>

type_synonym emitter = "string \<Rightarrow> listener list"

definition listenerCount :: "emitter \<Rightarrow> string \<Rightarrow> nat" where
  "listenerCount em event = length (em event)"

definition emitter_on :: "emitter \<Rightarrow> string \<Rightarrow> listener \<Rightarrow> emitter" where
  "emitter_on em event l = em(event := em event @ [l])"

fun emit_to :: "listener list \<Rightarrow> props \<Rightarrow> listener_run" where
  "emit_to [] p = \<lparr>calls = [], errors = [], raised = None\<rparr>"
| "emit_to (l # ls) p =
     (let r = l p in
      case raised r of
        Some e \<Rightarrow> r
      | None \<Rightarrow>
          (let rs = emit_to ls p in
           \<lparr>calls = calls r @ calls rs, errors = errors r @ errors rs, raised = raised rs\<rparr>))"

definition emit :: "emitter \<Rightarrow> string \<Rightarrow> props \<Rightarrow> listener_run" where
  "emit em event p = emit_to (em event) p"

text \<open>
  The delay of a timer: \<^verbatim>\<open>setTimeout\<close> takes a negative delay as 0 (the coercion of
  a value that is not a number is taken as 0).
\<close>

fun timeout_ms :: "jsval \<Rightarrow> nat" where
  "timeout_ms (Num n) = nat n"
| "timeout_ms v = 0"

text \<open>
  The listener that the constructor of \<^verbatim>\<open>UIBridge\<close> registers for
  \<open>SLEEP_EVENT\<close>, directly on the emitter (it is not wrapped):
  \<^verbatim>\<open>const { duration = 0 } = props; setTimeout(() => { next(props.prev || {}); }, duration);\<close>
\<close>

definition sleep_handler :: listener where
  "sleep_handler p =
     (let duration = (if get_prop p ''duration'' = Undefined then Num 0
                      else get_prop p ''duration'')
      in \<lparr>calls = [\<lparr>time = Suc (timeout_ms duration),
                    arg = (if truthy (get_prop p ''prev'') then get_prop p ''prev'' else Obj []),
                    origin = ByHandler\<rparr>],
          errors = [],
          raised = None\<rparr>)"

section \<open>The executor\<close>

text \<open>
  A promise of the engine is resolved with a value, rejected with an error, or never
  settles.
\<close>

datatype outcome = Resolved jsval | Rejected jsval | Pending

text \<open>
  The first invocation in time; of two at the same time, the one made first.
\<close>

fun earliest :: "invocation list \<Rightarrow> invocation option" where
  "earliest [] = None"
| "earliest (c # cs) =
     (case earliest cs of
        None \<Rightarrow> Some c
      | Some d \<Rightarrow> if time c \<le> time d then Some c else Some d)"

text \<open>
  \<^verbatim>\<open>await new Promise((resolve) => { emit(event, eventProps, (nextProps = {}) => { resolve(nextProps); }); })\<close>:
  the promise takes the first call of \<^verbatim>\<open>resolve\<close>, with \<^verbatim>\<open>{}\<close> for an argument
  that is \<^verbatim>\<open>undefined\<close>; an error thrown out of the executor function rejects it
  unless it was resolved synchronously before; later calls do nothing.
\<close>

definition awaited_step :: "listener_run \<Rightarrow> outcome" where
  "awaited_step r =
     (case earliest (calls r) of
        None \<Rightarrow> (case raised r of Some e \<Rightarrow> Rejected e | None \<Rightarrow> Pending)
      | Some c \<Rightarrow>
          (case raised r of
             Some e \<Rightarrow>
               if time c = 0 then Resolved (if arg c = Undefined then Obj [] else arg c)
               else Rejected e
           | None \<Rightarrow> Resolved (if arg c = Undefined then Obj [] else arg c)))"

record UIEventChainItem =
  event :: string
  props :: props

text \<open>
  What a run of the executor leaves behind: how its promise settles, the dispatches it
  made (event name and execution context, in order) and the console output.
\<close>

record execution =
  settled :: outcome
  emitted :: "(string \<times> props) list"
  console :: "diagnostic list"

text \<open>
  \<^verbatim>\<open>UIBridge._executeChain\<close>: the loop over the items, from the carry-forward context
  \<open>prevProps\<close>.  A step whose promise does not resolve ends the run there.
\<close>

fun executeChain_from :: "emitter \<Rightarrow> jsval \<Rightarrow> UIEventChainItem list \<Rightarrow> execution" where
  "executeChain_from em prevProps [] =
     \<lparr>settled = Resolved prevProps, emitted = [], console = []\<rparr>"
| "executeChain_from em prevProps (item # rest) =
     (let eventProps = AList.update ''prev'' prevProps (props item) in
      if listenerCount em (event item) > 0 then
        (let r = emit em (event item) eventProps in
         case awaited_step r of
           Resolved nextProps \<Rightarrow>
             (let x = executeChain_from em nextProps rest in
              \<lparr>settled = settled x,
               emitted = (event item, eventProps) # emitted x,
               console = errors r @ console x\<rparr>)
         | Rejected e \<Rightarrow>
             \<lparr>settled = Rejected e, emitted = [(event item, eventProps)], console = errors r\<rparr>
         | Pending \<Rightarrow>
             \<lparr>settled = Pending, emitted = [(event item, eventProps)], console = errors r\<rparr>)
      else executeChain_from em (Obj eventProps) rest)"

definition executeChain :: "emitter \<Rightarrow> UIEventChainItem list \<Rightarrow> execution" where
  "executeChain em items = executeChain_from em (Obj []) items"

section \<open>The heap of arrays and objects\<close>

text \<open>
  Arrays of chain items, chain items and parameter objects are mutable and shared by
  reference, so they live in a heap: an address below \<open>lim\<close> is allocated, and every
  allocation takes the address \<open>lim\<close>.  A parameter object holds values; a chain item
  \<^verbatim>\<open>{ event, props }\<close> holds its name and the address of its parameter object; an
  array holds the addresses of its items.
\<close>

type_synonym addr = nat

record heap =
  lim :: addr
  arrays :: "addr \<Rightarrow> addr list"
  chain_items :: "addr \<Rightarrow> string \<times> addr"
  objects :: "addr \<Rightarrow> props"

definition new_array :: "heap \<Rightarrow> addr list \<Rightarrow> heap \<times> addr" where
  "new_array h xs = (h\<lparr>lim := Suc (lim h), arrays := (arrays h)(lim h := xs)\<rparr>, lim h)"

definition new_chain_item :: "heap \<Rightarrow> string \<Rightarrow> addr \<Rightarrow> heap \<times> addr" where
  "new_chain_item h ev p =
     (h\<lparr>lim := Suc (lim h), chain_items := (chain_items h)(lim h := (ev, p))\<rparr>, lim h)"

definition new_object :: "heap \<Rightarrow> props \<Rightarrow> heap \<times> addr" where
  "new_object h obj = (h\<lparr>lim := Suc (lim h), objects := (objects h)(lim h := obj)\<rparr>, lim h)"

text \<open>\<^verbatim>\<open>array.push(x)\<close>\<close>

definition push :: "heap \<Rightarrow> addr \<Rightarrow> addr \<Rightarrow> heap" where
  "push h a x = h\<lparr>arrays := (arrays h)(a := arrays h a @ [x])\<rparr>"

text \<open>The items an array holds, read through the heap.\<close>

definition read_item :: "heap \<Rightarrow> addr \<Rightarrow> UIEventChainItem" where
  "read_item h i = \<lparr>event = fst (chain_items h i), props = objects h (snd (chain_items h i))\<rparr>"

definition read_items :: "heap \<Rightarrow> addr \<Rightarrow> UIEventChainItem list" where
  "read_items h a = map (read_item h) (arrays h a)"

section \<open>The chain builder\<close>

record UIChainBuilder =
  chainId :: string
  items :: addr
  metadata :: addr

record UIEventBatchItem =
  b_event :: string
  b_props :: "addr option"

record DeclaredChain =
  dc_id :: string
  dc_items :: addr
  dc_createdAt :: int
  dc_metadata :: addr

text \<open>The constructor: \<^verbatim>\<open>items = []\<close>, \<^verbatim>\<open>metadata = {}\<close>.\<close>

definition new_UIChainBuilder :: "heap \<Rightarrow> string \<Rightarrow> heap \<times> UIChainBuilder" where
  "new_UIChainBuilder h cid =
     (let (h1, a) = new_array h [];
          (h2, m) = new_object h1 []
      in (h2, \<lparr>chainId = cid, items = a, metadata = m\<rparr>))"

text \<open>
  \<^verbatim>\<open>add(event, props = {})\<close>: the caller passes the address of its parameter object,
  or nothing, and then a new empty object is made.
\<close>

definition add :: "heap \<times> UIChainBuilder \<Rightarrow> string \<Rightarrow> addr option \<Rightarrow> heap \<times> UIChainBuilder" where
  "add hb ev p =
     (let (h, b) = hb;
          (h1, pa) = (case p of None \<Rightarrow> new_object h [] | Some a \<Rightarrow> (h, a));
          (h2, i) = new_chain_item h1 ev pa
      in (push h2 (items b) i, b))"

definition sleep :: "heap \<times> UIChainBuilder \<Rightarrow> jsval \<Rightarrow> heap \<times> UIChainBuilder" where
  "sleep hb duration =
     (let (h, b) = hb;
          (h1, pa) = new_object h [(''duration'', duration)]
      in add (h1, b) SLEEP_EVENT (Some pa))"

text \<open>
  \<^verbatim>\<open>batch\<close>: one item.  \<^verbatim>\<open>item.props?.duration\<close> is \<^verbatim>\<open>undefined\<close> when the
  item has no \<^verbatim>\<open>props\<close>.
\<close>

definition batch_item :: "heap \<times> UIChainBuilder \<Rightarrow> UIEventBatchItem \<Rightarrow> heap \<times> UIChainBuilder" where
  "batch_item hb item =
     (let duration = (case b_props item of
                        None \<Rightarrow> Undefined
                      | Some a \<Rightarrow> get_prop (objects (fst hb) a) ''duration'')
      in if b_event item = ''sleep'' \<and> truthy duration then sleep hb duration
         else (case b_props item of
                 None \<Rightarrow>
                   (let (h1, pa) = new_object (fst hb) [] in add (h1, snd hb) (b_event item) (Some pa))
               | Some a \<Rightarrow> add hb (b_event item) (Some a)))"

definition batch :: "heap \<times> UIChainBuilder \<Rightarrow> UIEventBatchItem list \<Rightarrow> heap \<times> UIChainBuilder" where
  "batch hb events = foldl batch_item hb events"

text \<open>\<^verbatim>\<open>this.metadata = { ...this.metadata, ...metadata }\<close>\<close>

definition meta :: "heap \<times> UIChainBuilder \<Rightarrow> addr \<Rightarrow> heap \<times> UIChainBuilder" where
  "meta hb md =
     (let (h, b) = hb;
          (h1, m) = new_object h (spread (objects h (metadata b)) (objects h md))
      in (h1, b\<lparr>metadata := m\<rparr>))"

text \<open>
  \<^verbatim>\<open>build()\<close>: \<^verbatim>\<open>items: [...this.items]\<close> is a new array of the same item
  references, \<^verbatim>\<open>metadata: { ...this.metadata }\<close> a new object of the same entries;
  \<open>now\<close> is \<^verbatim>\<open>Date.now()\<close>.
\<close>

definition build :: "heap \<times> UIChainBuilder \<Rightarrow> int \<Rightarrow> heap \<times> DeclaredChain" where
  "build hb now =
     (let (h, b) = hb;
          (h1, a) = new_array h (arrays h (items b));
          (h2, m) = new_object h1 (spread [] (objects h1 (metadata b)))
      in (h2, \<lparr>dc_id = chainId b, dc_items = a, dc_createdAt = now, dc_metadata = m\<rparr>))"

section \<open>The bridge: chain store and consumption\<close>

record UIBridge =
  emitter :: emitter
  declaredChains :: "(string \<times> DeclaredChain) list"

text \<open>The constructor registers the delay handler.\<close>

definition new_UIBridge :: UIBridge where
  "new_UIBridge =
     \<lparr>emitter = emitter_on (\<lambda>event. []) SLEEP_EVENT sleep_handler, declaredChains = []\<rparr>"

definition on :: "UIBridge \<Rightarrow> string \<Rightarrow> UIEventHandler \<Rightarrow> UIBridge" where
  "on ui ev callback = ui\<lparr>emitter := emitter_on (emitter ui) ev (wrappedCallback ev callback)\<rparr>"

text \<open>
  \<^verbatim>\<open>chain(chainId)\<close> makes a builder; the proxy it returns passes \<^verbatim>\<open>add\<close>,
  \<^verbatim>\<open>sleep\<close>, \<^verbatim>\<open>batch\<close> and \<^verbatim>\<open>meta\<close> on to it, and its \<^verbatim>\<open>build\<close> stores
  the built chain under \<open>chainId\<close>.
\<close>

definition chain :: "heap \<Rightarrow> string \<Rightarrow> heap \<times> UIChainBuilder" where
  "chain h cid = new_UIChainBuilder h cid"

definition proxy_build ::
  "UIBridge \<Rightarrow> heap \<times> UIChainBuilder \<Rightarrow> int \<Rightarrow> UIBridge \<times> heap \<times> DeclaredChain" where
  "proxy_build ui hb now =
     (let (h1, c) = build hb now
      in (ui\<lparr>declaredChains := AList.update (chainId (snd hb)) c (declaredChains ui)\<rparr>, h1, c))"

definition hasChain :: "UIBridge \<Rightarrow> string \<Rightarrow> bool" where
  "hasChain ui cid = (map_of (declaredChains ui) cid \<noteq> None)"

definition getChains :: "UIBridge \<Rightarrow> (string \<times> DeclaredChain) list" where
  "getChains ui = declaredChains ui"

definition clear :: "UIBridge \<Rightarrow> string option \<Rightarrow> UIBridge" where
  "clear ui cid =
     (case cid of
        Some c \<Rightarrow> if c \<noteq> [] then ui\<lparr>declaredChains := AList.delete c (declaredChains ui)\<rparr>
                  else ui\<lparr>declaredChains := []\<rparr>
      | None \<Rightarrow> ui\<lparr>declaredChains := []\<rparr>)"

text \<open>
  \<^verbatim>\<open>consume(chainId)\<close>: the bridge after the call and what the returned promise
  does.  The removal from the store comes before \<^verbatim>\<open>_executeChain\<close> is entered.
\<close>

definition consume :: "heap \<Rightarrow> UIBridge \<Rightarrow> string \<Rightarrow> UIBridge \<times> execution" where
  "consume h ui cid =
     (case map_of (declaredChains ui) cid of
        None \<Rightarrow>
          (ui, \<lparr>settled = Resolved Undefined, emitted = [], console = [Warn_not_found cid]\<rparr>)
      | Some c \<Rightarrow>
          (let ui1 = ui\<lparr>declaredChains := AList.delete cid (declaredChains ui)\<rparr>;
               its = read_items h (dc_items c);
               x = executeChain (emitter ui1) its
           in (ui1, x\<lparr>console := Log_consuming cid (length its) # console x\<rparr>)))"

section \<open>Vocabulary of the properties\<close>

text \<open>A heap with nothing allocated.\<close>

definition empty_heap :: heap where
  "empty_heap =
     \<lparr>lim = 0, arrays = (\<lambda>a. []), chain_items = (\<lambda>a. ([], 0)), objects = (\<lambda>a. [])\<rparr>"

text \<open>
  The bridge after the constructor and a sequence of \<^verbatim>\<open>on(event, callback)\<close> calls.
\<close>

definition bridge_with :: "(string \<times> UIEventHandler) list \<Rightarrow> UIBridge" where
  "bridge_with regs = foldl (\<lambda>ui (ev, cb). on ui ev cb) new_UIBridge regs"

text \<open>
  The invocations of the continuation that the wrapper makes itself, as opposed to
  those of the handler it wraps.
\<close>

definition by_wrapper :: "listener_run \<Rightarrow> invocation list" where
  "by_wrapper r = filter (\<lambda>c. origin c = ByWrapper) (calls r)"

text \<open>
  The handler has called \<^verbatim>\<open>stop\<close> by the last time the wrapper reads
  \<open>isStopped\<close>: in its synchronous body, or, when it returned a promise that
  settles, by the time the promise settles.
\<close>

definition stop_seen :: "conduct \<Rightarrow> bool" where
  "stop_seen c =
     (CallStop \<in> set (body c) \<or>
      (case ending c of
         ReturnsPromise (Some (t, s)) \<Rightarrow>
           CallStop \<in> snd ` set (filter (\<lambda>(t', a). t' \<le> t) (deferred c))
       | _ \<Rightarrow> False))"

subsection \<open>The consume algorithm in the words of the specification\<close>

text \<open>
  "Dispatch the event with the execution context and a continuation callback": every
  handler registered for the event name is invoked, in registration order, with the
  context and the one continuation.  The invocations of the continuation that result,
  handler by handler.
\<close>

definition spec_dispatch :: "listener list \<Rightarrow> props \<Rightarrow> invocation list" where
  "spec_dispatch ls context = concat (map (\<lambda>l. calls (l context)) ls)"

text \<open>
  "Suspend the executor until the continuation is invoked.  The value passed to the
  continuation becomes the new carry-forward context (defaulting to empty mapping if
  the continuation receives nothing)": of the invocations put in order of time (those
  at the same time stay in the order they were made), the first counts; its argument is
  the new context, and the empty mapping when the argument is \<^verbatim>\<open>undefined\<close>.
  Without any invocation there is no new context.
\<close>

definition spec_continuation_value :: "invocation list \<Rightarrow> jsval option" where
  "spec_continuation_value cs =
     (case sort_key time cs of
        [] \<Rightarrow> None
      | first # later \<Rightarrow> Some (case arg first of Undefined \<Rightarrow> Obj [] | passed \<Rightarrow> passed))"

text \<open>
  The state of the algorithm between two steps: the carry-forward context (\<open>None\<close>
  once a step has not resolved) and the dispatches made so far.
\<close>

record threading =
  carry :: "jsval option"
  dispatches :: "(string \<times> props) list"

text \<open>
  Step 4 of the algorithm, for one step: build the execution context (the step's own
  parameters merged with \<open>prev\<close> = the carry-forward context); if a handler is
  registered for the event name, dispatch, and the value passed to the continuation is
  the new carry-forward context; if none is, the execution context is.
\<close>

definition spec_step :: "emitter \<Rightarrow> threading \<Rightarrow> UIEventChainItem \<Rightarrow> threading" where
  "spec_step em st step =
     (case carry st of
        None \<Rightarrow> st
      | Some c \<Rightarrow>
          (let context = AList.update ''prev'' c (props step) in
           if em (event step) = [] then st\<lparr>carry := Some (Obj context)\<rparr>
           else \<lparr>carry = spec_continuation_value (spec_dispatch (em (event step)) context),
                 dispatches = dispatches st @ [(event step, context)]\<rparr>))"

text \<open>
  Steps 3 to 5: from the empty mapping, through the steps in declared order; the final
  carry-forward context is the result.
\<close>

definition spec_consume :: "emitter \<Rightarrow> UIEventChainItem list \<Rightarrow> threading" where
  "spec_consume em steps =
     foldl (spec_step em) \<lparr>carry = Some (Obj []), dispatches = []\<rparr> steps"

subsection \<open>Builders and the heap\<close>

text \<open>The calls a caller can make on a builder before or after \<^verbatim>\<open>build\<close>.\<close>

datatype builder_call =
    Add string "addr option"
  | Sleep jsval
  | Batch "UIEventBatchItem list"
  | Meta addr

fun apply_call :: "heap \<times> UIChainBuilder \<Rightarrow> builder_call \<Rightarrow> heap \<times> UIChainBuilder" where
  "apply_call hb (Add ev p) = add hb ev p"
| "apply_call hb (Sleep d) = sleep hb d"
| "apply_call hb (Batch events) = batch hb events"
| "apply_call hb (Meta md) = meta hb md"

text \<open>
  The builder's array and metadata object are allocated, and so are the items its
  array holds and their parameter objects.
\<close>

definition wf_builder :: "heap \<Rightarrow> UIChainBuilder \<Rightarrow> bool" where
  "wf_builder h b =
     (items b < lim h \<and> metadata b < lim h \<and>
      (\<forall>i \<in> set (arrays h (items b)). i < lim h \<and> snd (chain_items h i) < lim h))"

text \<open>
  \<open>grows a h h'\<close>: the heap \<open>h'\<close> comes from \<open>h\<close> by allocations and by writes to
  the array \<open>a\<close> only.
\<close>

definition grows :: "addr \<Rightarrow> heap \<Rightarrow> heap \<Rightarrow> bool" where
  "grows a h h' =
     (lim h \<le> lim h' \<and>
      (\<forall>x < lim h. chain_items h' x = chain_items h x \<and> objects h' x = objects h x \<and>
                    (x \<noteq> a \<longrightarrow> arrays h' x = arrays h x)))"

text \<open>
  An assignment \<^verbatim>\<open>obj.k = v\<close> by the caller, to a parameter object it holds a
  reference to.
\<close>

definition set_prop :: "heap \<Rightarrow> addr \<Rightarrow> string \<Rightarrow> jsval \<Rightarrow> heap" where
  "set_prop h a k v = h\<lparr>objects := (objects h)(a := AList.update k v (objects h a))\<rparr>"

text \<open>
  \<^verbatim>\<open>item.props?.duration\<close>: \<^verbatim>\<open>undefined\<close> when the item has no \<^verbatim>\<open>props\<close> or
  its \<^verbatim>\<open>props\<close> have no \<^verbatim>\<open>duration\<close>.
\<close>

definition item_duration :: "heap \<Rightarrow> UIEventBatchItem \<Rightarrow> jsval" where
  "item_duration h item =
     (case b_props item of
        None \<Rightarrow> Undefined
      | Some a \<Rightarrow> get_prop (objects h a) ''duration'')"

text \<open>
  The translation of one batch item, as a value: an item named \<^verbatim>\<open>"sleep"\<close> that has
  a duration is the delay step that \<^verbatim>\<open>sleep(duration)\<close> adds; any other item, also
  one named \<^verbatim>\<open>"sleep"\<close> that has no duration, is the step that
  \<^verbatim>\<open>add(event, props)\<close> adds, with \<^verbatim>\<open>{}\<close> for missing \<^verbatim>\<open>props\<close>.
\<close>

definition spec_translate :: "heap \<Rightarrow> UIEventBatchItem \<Rightarrow> UIEventChainItem" where
  "spec_translate h item =
     (if b_event item = ''sleep'' \<and> item_duration h item \<noteq> Undefined
      then \<lparr>event = SLEEP_EVENT, props = [(''duration'', item_duration h item)]\<rparr>
      else \<lparr>event = b_event item,
            props = (case b_props item of None \<Rightarrow> [] | Some a \<Rightarrow> objects h a)\<rparr>)"

subsection \<open>Example handlers\<close>

text \<open>\<^verbatim>\<open>(props, next) => {}\<close>\<close>

definition noop :: UIEventHandler where
  "noop p = \<lparr>body = [], ending = Returns Undefined, deferred = []\<rparr>"

text \<open>\<^verbatim>\<open>(props, next, stop) => { stop(); }\<close>\<close>

definition stopper :: UIEventHandler where
  "stopper p = \<lparr>body = [CallStop], ending = Returns Undefined, deferred = []\<rparr>"

text \<open>\<^verbatim>\<open>(props, next) => { next({ n: 2 }); }\<close>\<close>

definition answers :: UIEventHandler where
  "answers p =
     \<lparr>body = [CallNext (Some [(''n'', Num 2)])], ending = Returns Undefined, deferred = []\<rparr>"

text \<open>\<^verbatim>\<open>(props, next, stop) => { next({ n: 2 }); stop(); }\<close>\<close>

definition next_then_stop :: UIEventHandler where
  "next_then_stop p =
     \<lparr>body = [CallNext (Some [(''n'', Num 2)]), CallStop], ending = Returns Undefined,
      deferred = []\<rparr>"

text \<open>\<^verbatim>\<open>(props, next, stop) => { stop(); throw "boom"; }\<close>\<close>

definition stop_then_throw :: UIEventHandler where
  "stop_then_throw p = \<lparr>body = [CallStop], ending = Throws (Str ''boom''), deferred = []\<rparr>"

text \<open>
  \<^verbatim>\<open>async (props, next, stop) => { stop(); throw "boom"; }\<close>: the body of an
  \<^verbatim>\<open>async\<close> function runs synchronously up to its first \<^verbatim>\<open>await\<close>, and its
  \<^verbatim>\<open>throw\<close> rejects the promise it returns.
\<close>

definition stop_then_reject :: UIEventHandler where
  "stop_then_reject p =
     \<lparr>body = [CallStop], ending = ReturnsPromise (Some (0, Rejects (Str ''boom''))),
      deferred = []\<rparr>"

text \<open>\<^verbatim>\<open>(props, next) => { throw "boom"; }\<close>\<close>

definition thrower :: UIEventHandler where
  "thrower p = \<lparr>body = [], ending = Throws (Str ''boom''), deferred = []\<rparr>"

text \<open>\<^verbatim>\<open>async (props, next) => 5\<close>, the promise resolving after 3 ms\<close>

definition resolves_five :: UIEventHandler where
  "resolves_five p =
     \<lparr>body = [], ending = ReturnsPromise (Some (3, Resolves (Num 5))), deferred = []\<rparr>"

text \<open>\<^verbatim>\<open>(props, next) => { next(); }\<close>\<close>

definition bare_next :: UIEventHandler where
  "bare_next p = \<lparr>body = [CallNext None], ending = Returns Undefined, deferred = []\<rparr>"

subsection \<open>Example chains\<close>

text \<open>
  \<^verbatim>\<open>ui.on("a", (props, next, stop) => { stop(); }); ui.chain("t").add("a").build();\<close>
\<close>

definition declared_once :: "UIBridge \<times> heap \<times> DeclaredChain" where
  "declared_once =
     proxy_build (on new_UIBridge ''a'' stopper) (add (chain empty_heap ''t'') ''a'' None) 5"

text \<open>\<^verbatim>\<open>ui.chain("e").build();\<close>\<close>

definition declared_empty :: "UIBridge \<times> heap \<times> DeclaredChain" where
  "declared_empty = proxy_build new_UIBridge (chain empty_heap ''e'') 5"

text \<open>
  \<^verbatim>\<open>ui.on("x", (props, next, stop) => { next({ n: 2 }); stop(); }); ui.on("y", () => {});\<close>
  \<^verbatim>\<open>ui.chain("t").add("x").add("y").build();\<close>
\<close>

definition declared_xy :: "UIBridge \<times> heap \<times> DeclaredChain" where
  "declared_xy =
     proxy_build (on (on new_UIBridge ''x'' next_then_stop) ''y'' noop)
       (add (add (chain empty_heap ''t'') ''x'' None) ''y'' None) 5"

text \<open>
  \<^verbatim>\<open>ui.on("x", async () => 5); ui.on("x", (props, next) => { next({ n: 2 }); });\<close>
  \<^verbatim>\<open>ui.on("y", (props, next) => { next(); });\<close>
  \<^verbatim>\<open>ui.chain("t").add("x").add("u").add("y").build();\<close>
  The first handler of \<^verbatim>\<open>"x"\<close> resolves after 3 ms; nothing is registered for
  \<^verbatim>\<open>"u"\<close>.
\<close>

definition threads_bridge :: UIBridge where
  "threads_bridge =
     on (on (on new_UIBridge ''x'' resolves_five) ''x'' answers) ''y'' bare_next"

definition declared_threads :: "UIBridge \<times> heap \<times> DeclaredChain" where
  "declared_threads =
     proxy_build threads_bridge
       (add (add (add (chain empty_heap ''t'') ''x'' None) ''u'' None) ''y'' None) 5"

subsection \<open>Example builders\<close>

text \<open>\<^verbatim>\<open>const b = ui.chain("a"); b.add("x");\<close>\<close>

definition builder_x :: "heap \<times> UIChainBuilder" where
  "builder_x = add (chain empty_heap ''a'') ''x'' None"

text \<open>\<^verbatim>\<open>const params = { n: 1 }; const b = ui.chain("a"); b.add("x", params);\<close>\<close>

definition caller_params :: "heap \<times> addr" where
  "caller_params = new_object empty_heap [(''n'', Num 1)]"

definition builder_n :: "heap \<times> UIChainBuilder" where
  "builder_n = add (chain (fst caller_params) ''a'') ''x'' (Some (snd caller_params))"

text \<open>
  The caller's objects \<^verbatim>\<open>{ duration: 10 }\<close> (at address 0) and \<^verbatim>\<open>{ a: 1 }\<close> (at
  address 1), and a new builder \<^verbatim>\<open>ui.chain("c")\<close>.
\<close>

definition builder_c :: "heap \<times> UIChainBuilder" where
  "builder_c =
     chain (fst (new_object (fst (new_object empty_heap [(''duration'', Num 10)]))
                  [(''a'', Num 1)])) ''c''"

text \<open>
  The caller's object \<^verbatim>\<open>{ duration: 0 }\<close> (at address 0), and a new builder
  \<^verbatim>\<open>ui.chain("z")\<close>.
\<close>

definition builder_zero :: "heap \<times> UIChainBuilder" where
  "builder_zero = chain (fst (new_object empty_heap [(''duration'', Num 0)])) ''z''"


section \<open>Evaluation of the examples\<close>

lemmas builder_simps =
  chain_def new_UIChainBuilder_def new_array_def new_object_def new_chain_item_def push_def
  add_def sleep_def batch_def batch_item_def meta_def build_def proxy_build_def spread_def
  empty_heap_def read_items_def read_item_def get_prop_def SLEEP_EVENT_def

lemmas engine_simps =
  new_UIBridge_def on_def emitter_on_def listenerCount_def emit_def wrappedCallback_def
  sleep_handler_def body_calls_def deferred_calls_def next_arg_def awaited_step_def
  executeChain_def consume_def hasChain_def Let_def

section \<open>Consumption and the store\<close>

lemma map_of_delete_same: "map_of (AList.delete k al) k = None"
  by (simp add: delete_conv')

text \<open>
  C7.  For an id that the store does not hold, \<open>consume\<close> writes one warning that
  names the id, its promise resolves at once with \<^verbatim>\<open>undefined\<close>, no step is dispatched,
  and the bridge (its store and every chain declared in it) is as before.
\<close>

theorem consume_unknown_chain:
  assumes "\<not> hasChain ui cid"
  shows "consume h ui cid =
           (ui, \<lparr>settled = Resolved Undefined, emitted = [], console = [Warn_not_found cid]\<rparr>)"
  using assms by (simp add: consume_def hasChain_def)

theorem consume_unknown_chain_witness:
  "\<not> hasChain new_UIBridge ''ghost'' \<and>
   consume empty_heap new_UIBridge ''ghost'' =
     (new_UIBridge,
      \<lparr>settled = Resolved Undefined, emitted = [], console = [Warn_not_found ''ghost'']\<rparr>)"
proof -
  have h: "\<not> hasChain new_UIBridge ''ghost''"
    by (simp add: hasChain_def new_UIBridge_def)
  show ?thesis using h consume_unknown_chain [OF h, of empty_heap] by simp
qed

text \<open>
  C10.  Consuming a declared chain whose array of steps is empty removes the chain from
  the store and resolves with the empty mapping \<^verbatim>\<open>{}\<close>, the initial carry-forward
  context; nothing is dispatched.
\<close>

theorem consume_empty_chain:
  assumes "map_of (declaredChains ui) cid = Some c"
    and "arrays h (dc_items c) = []"
  shows "consume h ui cid =
           (ui\<lparr>declaredChains := AList.delete cid (declaredChains ui)\<rparr>,
            \<lparr>settled = Resolved (Obj []), emitted = [], console = [Log_consuming cid 0]\<rparr>)
         \<and> \<not> hasChain (fst (consume h ui cid)) cid"
  using assms
  by (simp add: consume_def hasChain_def read_items_def executeChain_def map_of_delete_same)

theorem consume_empty_chain_witness:
  "map_of (declaredChains (fst declared_empty)) ''e'' = Some (snd (snd declared_empty))
   \<and> arrays (fst (snd declared_empty)) (dc_items (snd (snd declared_empty))) = []
   \<and> settled (snd (consume (fst (snd declared_empty)) (fst declared_empty) ''e''))
       = Resolved (Obj [])
   \<and> emitted (snd (consume (fst (snd declared_empty)) (fst declared_empty) ''e'')) = []
   \<and> \<not> hasChain (fst (consume (fst (snd declared_empty)) (fst declared_empty) ''e'')) ''e''"
proof -
  have 1: "map_of (declaredChains (fst declared_empty)) ''e'' = Some (snd (snd declared_empty))"
    by (simp add: declared_empty_def builder_simps new_UIBridge_def)
  have 2: "arrays (fst (snd declared_empty)) (dc_items (snd (snd declared_empty))) = []"
    by (simp add: declared_empty_def builder_simps)
  show ?thesis
    using 1 2 consume_empty_chain [OF 1 2]
    by (simp add: hasChain_def map_of_delete_same)
qed

text \<open>
  C1.  For a chain id that the store holds, \<open>consume\<close> takes the entry out of the
  store before the executor is entered: in the bridge that the call leaves behind, the id
  is absent and every other declaration is untouched, whatever becomes of the promise
  (it may never settle).  A second \<open>consume\<close> of the id on that bridge, at any later
  state of the heap, finds the id absent, resolves with \<^verbatim>\<open>undefined\<close> and dispatches
  nothing, so the dispatches of both calls together are those of one execution of the
  chain.
\<close>

theorem consume_at_most_once:
  assumes "map_of (declaredChains ui) cid = Some c"
  shows "\<not> hasChain (fst (consume h ui cid)) cid
       \<and> declaredChains (fst (consume h ui cid)) = AList.delete cid (declaredChains ui)
       \<and> consume h' (fst (consume h ui cid)) cid =
           (fst (consume h ui cid),
            \<lparr>settled = Resolved Undefined, emitted = [], console = [Warn_not_found cid]\<rparr>)
       \<and> emitted (snd (consume h ui cid))
           @ emitted (snd (consume h' (fst (consume h ui cid)) cid))
           = emitted (executeChain (emitter ui) (read_items h (dc_items c)))"
  using assms
  by (simp add: consume_def hasChain_def map_of_delete_same Let_def)

theorem consume_at_most_once_witness:
  "map_of (declaredChains (fst declared_once)) ''t'' = Some (snd (snd declared_once))
   \<and> settled (snd (consume (fst (snd declared_once)) (fst declared_once) ''t'')) = Pending
   \<and> map fst (emitted (snd (consume (fst (snd declared_once)) (fst declared_once) ''t'')))
       = [''a'']
   \<and> \<not> hasChain (fst (consume (fst (snd declared_once)) (fst declared_once) ''t'')) ''t''
   \<and> snd (consume (fst (snd declared_once))
            (fst (consume (fst (snd declared_once)) (fst declared_once) ''t'')) ''t'')
       = \<lparr>settled = Resolved Undefined, emitted = [], console = [Warn_not_found ''t'']\<rparr>"
proof -
  have 1: "map_of (declaredChains (fst declared_once)) ''t'' = Some (snd (snd declared_once))"
    by (simp add: declared_once_def builder_simps on_def new_UIBridge_def)
  have 2: "settled (snd (consume (fst (snd declared_once)) (fst declared_once) ''t'')) = Pending
    \<and> map fst (emitted (snd (consume (fst (snd declared_once)) (fst declared_once) ''t'')))
       = [''a'']"
    by (simp add: declared_once_def builder_simps engine_simps stopper_def)
  show ?thesis
    using 1 2 consume_at_most_once [OF 1, of "fst (snd declared_once)" "fst (snd declared_once)"]
    by (simp add: hasChain_def map_of_delete_same)
qed

section \<open>The wrapper\<close>

lemma body_calls_origin: "c \<in> set (body_calls acts) \<Longrightarrow> origin c = ByHandler"
  by (auto simp: body_calls_def split: action.splits)

lemma deferred_calls_origin: "c \<in> set (deferred_calls tacts) \<Longrightarrow> origin c = ByHandler"
  by (auto simp: deferred_calls_def split: action.splits)

lemma filter_wrapper_body [simp]:
  "filter (\<lambda>c. origin c = ByWrapper) (body_calls acts) = []"
  by (auto simp: filter_empty_conv dest: body_calls_origin)

lemma filter_wrapper_deferred [simp]:
  "filter (\<lambda>c. origin c = ByWrapper) (deferred_calls tacts) = []"
  by (auto simp: filter_empty_conv dest: deferred_calls_origin)

lemma is_object_not_Undefined: "is_object v \<Longrightarrow> v \<noteq> Undefined"
  by (cases v) simp_all

text \<open>The wrapper, one equation for each way the handler can end.\<close>

lemma wrappedCallback_Throws:
  assumes "ending (cb p) = Throws e"
  shows "wrappedCallback ev cb p =
           \<lparr>calls = body_calls (body (cb p))
              @ (if CallStop \<notin> set (body (cb p))
                 then [\<lparr>time = 0, arg = Obj p, origin = ByWrapper\<rparr>] else [])
              @ deferred_calls (deferred (cb p)),
            errors = [Error_in_handler ev e], raised = None\<rparr>"
  using assms by (simp add: wrappedCallback_def Let_def)

lemma wrappedCallback_Returns:
  assumes "ending (cb p) = Returns v"
  shows "wrappedCallback ev cb p =
           \<lparr>calls = body_calls (body (cb p))
              @ (if CallStop \<in> set (body (cb p)) then []
                 else [\<lparr>time = 0,
                        arg = (if is_object v then v
                               else if v = Undefined then Obj p
                               else Obj [(''value'', v), (''prev'', Obj p)]),
                        origin = ByWrapper\<rparr>])
              @ deferred_calls (deferred (cb p)),
            errors = [], raised = None\<rparr>"
  using assms by (simp add: wrappedCallback_def Let_def is_object_not_Undefined)

lemma wrappedCallback_never_settles:
  assumes "ending (cb p) = ReturnsPromise None"
  shows "wrappedCallback ev cb p =
           \<lparr>calls = body_calls (body (cb p)) @ deferred_calls (deferred (cb p)),
            errors = [], raised = None\<rparr>"
  using assms by (simp add: wrappedCallback_def Let_def)

lemma wrappedCallback_stopped_promise:
  assumes "ending (cb p) = ReturnsPromise (Some (t, s))" and "CallStop \<in> set (body (cb p))"
  shows "wrappedCallback ev cb p =
           \<lparr>calls = body_calls (body (cb p)) @ deferred_calls (deferred (cb p)),
            errors = [], raised = None\<rparr>"
  using assms by (simp add: wrappedCallback_def Let_def)

lemma wrappedCallback_Resolves:
  assumes "ending (cb p) = ReturnsPromise (Some (t, Resolves v))"
    and "CallStop \<notin> set (body (cb p))"
  shows "wrappedCallback ev cb p =
           (if CallStop \<in> snd ` set (filter (\<lambda>(t', a). t' \<le> t) (deferred (cb p)))
            then \<lparr>calls = body_calls (body (cb p)) @ deferred_calls (deferred (cb p)),
                  errors = [], raised = None\<rparr>
            else \<lparr>calls = body_calls (body (cb p))
                    @ deferred_calls (filter (\<lambda>(t', a). t' \<le> t) (deferred (cb p)))
                    @ [\<lparr>time = Suc t,
                         arg = (if is_object v then v
                                else if v = Undefined then Obj p
                                else Obj [(''value'', v), (''prev'', Obj p)]),
                         origin = ByWrapper\<rparr>]
                    @ deferred_calls (filter (\<lambda>(t', a). \<not> t' \<le> t) (deferred (cb p))),
                  errors = [], raised = None\<rparr>)"
  using assms by (simp add: wrappedCallback_def Let_def is_object_not_Undefined)

lemma wrappedCallback_Rejects:
  assumes "ending (cb p) = ReturnsPromise (Some (t, Rejects e))"
    and "CallStop \<notin> set (body (cb p))"
  shows "wrappedCallback ev cb p =
           \<lparr>calls = body_calls (body (cb p))
              @ deferred_calls (filter (\<lambda>(t', a). t' \<le> t) (deferred (cb p)))
              @ (if CallStop \<notin> snd ` set (filter (\<lambda>(t', a). t' \<le> t) (deferred (cb p)))
                 then [\<lparr>time = Suc t, arg = Obj p, origin = ByWrapper\<rparr>] else [])
              @ deferred_calls (filter (\<lambda>(t', a). \<not> t' \<le> t) (deferred (cb p))),
            errors = [Error_in_handler ev e], raised = None\<rparr>"
  using assms by (simp add: wrappedCallback_def Let_def)

lemma conduct_cases:
  obtains (Throws) e where "ending c = Throws e"
  | (Returns) v where "ending c = Returns v"
  | (Never) "ending c = ReturnsPromise None"
  | (Stopped) t s where "ending c = ReturnsPromise (Some (t, s))" and "CallStop \<in> set (body c)"
  | (Resolves) t v where "ending c = ReturnsPromise (Some (t, Resolves v))"
      and "CallStop \<notin> set (body c)"
  | (Rejects) t e where "ending c = ReturnsPromise (Some (t, Rejects e))"
      and "CallStop \<notin> set (body c)"
proof (cases "ending c")
  case (Returns v)
  then show ?thesis by (rule that(2))
next
  case (Throws e)
  then show ?thesis by (rule that(1))
next
  case (ReturnsPromise st)
  show ?thesis
  proof (cases st)
    case None
    with ReturnsPromise show ?thesis by (simp add: that(3))
  next
    case (Some ts)
    obtain t s where ts: "ts = (t, s)" by (cases ts)
    show ?thesis
    proof (cases "CallStop \<in> set (body c)")
      case True
      with ReturnsPromise Some ts show ?thesis by (simp add: that(4))
    next
      case False
      with ReturnsPromise Some ts show ?thesis
        by (cases s) (simp_all add: that(5) that(6))
    qed
  qed
qed

lemmas wrappedCallback_cases =
  wrappedCallback_Throws wrappedCallback_Returns wrappedCallback_never_settles
  wrappedCallback_stopped_promise wrappedCallback_Resolves wrappedCallback_Rejects

lemma wrappedCallback_raised [simp]: "raised (wrappedCallback ev cb p) = None"
  by (cases "cb p" rule: conduct_cases) (simp_all add: wrappedCallback_cases)

lemma earliest_None_iff: "earliest cs = None \<longleftrightarrow> cs = []"
  by (induction cs) (auto split: option.splits)

lemma earliest_mem: "earliest cs = Some c \<Longrightarrow> c \<in> set cs"
  by (induction cs arbitrary: c) (auto split: option.splits if_splits)

lemma earliest_single [simp]: "earliest [c] = Some c"
  by simp

lemma set_concat_map_filter:
  "set (concat (map f (filter P xs))) \<union> set (concat (map f (filter (\<lambda>x. \<not> P x) xs)))
     = set (concat (map f xs))"
  by (induction xs) auto

lemma set_deferred_calls_filter:
  "set (deferred_calls (filter P xs)) \<union> set (deferred_calls (filter (\<lambda>x. \<not> P x) xs))
     = set (deferred_calls xs)"
  unfolding deferred_calls_def by (rule set_concat_map_filter)

lemma by_wrapper_stopped:
  assumes "stop_seen (cb p)"
  shows "by_wrapper (wrappedCallback ev cb p) = []"
  using assms
  by (cases "cb p" rule: conduct_cases)
     (auto simp: stop_seen_def by_wrapper_def wrappedCallback_cases)

lemma by_wrapper_never_settles:
  assumes "ending (cb p) = ReturnsPromise None"
  shows "by_wrapper (wrappedCallback ev cb p) = []"
  using assms by (simp add: by_wrapper_def wrappedCallback_def Let_def)

lemma by_wrapper_once:
  assumes "\<not> stop_seen (cb p)" and "ending (cb p) \<noteq> ReturnsPromise None"
  shows "length (by_wrapper (wrappedCallback ev cb p)) = 1"
  using assms
  by (cases "cb p" rule: conduct_cases)
     (auto simp: stop_seen_def by_wrapper_def wrappedCallback_cases)

lemma calls_wrappedCallback_set:
  "set (calls (wrappedCallback ev cb p)) =
     set (body_calls (body (cb p))) \<union> set (deferred_calls (deferred (cb p)))
     \<union> set (by_wrapper (wrappedCallback ev cb p))"
proof -
  have part: "set (deferred_calls (filter (\<lambda>(t', a). t' \<le> t) (deferred (cb p))))
           \<union> set (deferred_calls (filter (\<lambda>(t', a). \<not> t' \<le> t) (deferred (cb p))))
         = set (deferred_calls (deferred (cb p)))" for t
    using set_deferred_calls_filter [of "\<lambda>(t', a). t' \<le> t" "deferred (cb p)"]
    by (simp add: case_prod_unfold)
  show ?thesis
    using part
    by (cases "cb p" rule: conduct_cases)
       (auto simp: by_wrapper_def wrappedCallback_cases)
qed

lemma emit_single [simp]: "emit_to [l] p = l p"
  by (cases "raised (l p)") (simp_all add: Let_def)

lemma awaited_step_Pending_iff:
  assumes "raised r = None"
  shows "awaited_step r = Pending \<longleftrightarrow> calls r = []"
  using assms
  by (auto simp: awaited_step_def earliest_None_iff split: option.splits)

text \<open>
  C4.  For a handler that never calls \<open>stop\<close> and whose result is \<open>v\<close> (returned
  directly, or the value its returned promise resolves with), the wrapper invokes the
  continuation once, with \<open>v\<close> itself when \<open>v\<close> is a non-null object, with the
  execution context \<open>p\<close> that the handler received when \<open>v\<close> is \<^verbatim>\<open>undefined\<close>, and
  with \<^verbatim>\<open>{ value: v, prev: p }\<close> for every other value.  When the handler makes no
  call of its own, that argument is what the step's promise resolves with: the new
  carry-forward context.
\<close>

theorem handler_result_forwarding:
  assumes "CallStop \<notin> set (body (cb p))"
    and "CallStop \<notin> snd ` set (deferred (cb p))"
    and "ending (cb p) = Returns v
         \<or> (\<exists>t. ending (cb p) = ReturnsPromise (Some (t, Resolves v)))"
  shows "map arg (by_wrapper (wrappedCallback ev cb p)) =
           [if is_object v then v
            else if v = Undefined then Obj p
            else Obj [(''value'', v), (''prev'', Obj p)]]
         \<and> (body (cb p) = [] \<and> deferred (cb p) = [] \<longrightarrow>
              awaited_step (emit_to [wrappedCallback ev cb] p) =
                Resolved (if is_object v then v
                          else if v = Undefined then Obj p
                          else Obj [(''value'', v), (''prev'', Obj p)]))"
proof -
  let ?w = "if is_object v then v
            else if v = Undefined then Obj p
            else Obj [(''value'', v), (''prev'', Obj p)]"
  have nostop: "CallStop \<notin> snd ` set (filter (\<lambda>(t', a). t' \<le> t) (deferred (cb p)))" for t
    using assms(2) by auto
  have A: "map arg (by_wrapper (wrappedCallback ev cb p)) = [?w]"
    using assms(3)
  proof (elim disjE exE)
    assume "ending (cb p) = Returns v"
    then show ?thesis
      using assms(1) by (simp add: by_wrapper_def wrappedCallback_Returns)
  next
    fix t
    assume "ending (cb p) = ReturnsPromise (Some (t, Resolves v))"
    then show ?thesis
      using assms(1) nostop [of t] by (simp add: by_wrapper_def wrappedCallback_Resolves)
  qed
  have w: "?w \<noteq> Undefined"
    by (cases v) simp_all
  have B: "awaited_step (emit_to [wrappedCallback ev cb] p) = Resolved ?w"
    if quiet: "body (cb p) = [] \<and> deferred (cb p) = []"
  proof -
    have "set (calls (wrappedCallback ev cb p)) = set (by_wrapper (wrappedCallback ev cb p))"
      using quiet by (simp add: calls_wrappedCallback_set body_calls_def deferred_calls_def)
    then have "\<forall>k \<in> set (calls (wrappedCallback ev cb p)). origin k = ByWrapper"
      by (auto simp: by_wrapper_def)
    then have "by_wrapper (wrappedCallback ev cb p) = calls (wrappedCallback ev cb p)"
      by (simp add: by_wrapper_def filter_id_conv)
    with A obtain k where k: "calls (wrappedCallback ev cb p) = [k]" and "arg k = ?w"
      by auto
    then show ?thesis
      using w by (simp add: awaited_step_def)
  qed
  from A B show ?thesis by blast
qed

theorem handler_result_forwarding_witness:
  "CallStop \<notin> set (body (resolves_five [(''n'', Num 1)]))
   \<and> CallStop \<notin> snd ` set (deferred (resolves_five [(''n'', Num 1)]))
   \<and> ending (resolves_five [(''n'', Num 1)]) = ReturnsPromise (Some (3, Resolves (Num 5)))
   \<and> map arg (by_wrapper (wrappedCallback ''x'' resolves_five [(''n'', Num 1)])) =
        [Obj [(''value'', Num 5), (''prev'', Obj [(''n'', Num 1)])]]
   \<and> awaited_step (emit_to [wrappedCallback ''x'' resolves_five] [(''n'', Num 1)]) =
        Resolved (Obj [(''value'', Num 5), (''prev'', Obj [(''n'', Num 1)])])"
proof -
  have 1: "CallStop \<notin> set (body (resolves_five [(''n'', Num 1)]))"
    by (simp add: resolves_five_def)
  have 2: "CallStop \<notin> snd ` set (deferred (resolves_five [(''n'', Num 1)]))"
    by (simp add: resolves_five_def)
  have 3: "ending (resolves_five [(''n'', Num 1)]) = Returns (Num 5)
         \<or> (\<exists>t. ending (resolves_five [(''n'', Num 1)]) = ReturnsPromise (Some (t, Resolves (Num 5))))"
    by (simp add: resolves_five_def)
  have 4: "body (resolves_five [(''n'', Num 1)]) = [] \<and> deferred (resolves_five [(''n'', Num 1)]) = []"
    by (simp add: resolves_five_def)
  show ?thesis
    using 1 2 3 4
      handler_result_forwarding [of resolves_five "[(''n'', Num 1)]" "Num 5" "''x''"]
    by (simp add: resolves_five_def)
qed

section \<open>How often the continuation is invoked\<close>

lemma executeChain_from_step:
  assumes "em ev = [l]" and "raised (l (AList.update ''prev'' c ps)) = None"
  shows "executeChain_from em c (\<lparr>event = ev, props = ps\<rparr> # rest) =
           (case earliest (calls (l (AList.update ''prev'' c ps))) of
              None \<Rightarrow>
                \<lparr>settled = Pending, emitted = [(ev, AList.update ''prev'' c ps)],
                 console = errors (l (AList.update ''prev'' c ps))\<rparr>
            | Some k \<Rightarrow>
                \<lparr>settled = settled (executeChain_from em
                             (if arg k = Undefined then Obj [] else arg k) rest),
                 emitted = (ev, AList.update ''prev'' c ps)
                           # emitted (executeChain_from em
                               (if arg k = Undefined then Obj [] else arg k) rest),
                 console = errors (l (AList.update ''prev'' c ps))
                           @ console (executeChain_from em
                               (if arg k = Undefined then Obj [] else arg k) rest)\<rparr>)"
  using assms
  by (simp add: listenerCount_def emit_def awaited_step_def Let_def split: option.splits)

text \<open>
  C5, as the code has it.  In one invocation of the wrapper of a handler registered by
  \<open>on\<close>:
  \<^item> when the handler has called \<open>stop\<close> in its synchronous body, or before the
    promise it returned settles, the wrapper itself never invokes the continuation;
  \<^item> when the promise the handler returned never settles, the wrapper itself never
    invokes the continuation;
  \<^item> otherwise the wrapper itself invokes the continuation exactly once;
  \<^item> the invocations the handler makes itself come on top of the wrapper's;
  \<^item> where the handler's wrapper is the only listener of the step's event, the chain
    halts at the step (the promise of \<open>consume\<close> stays pending and no later step is
    dispatched) when neither the handler nor the wrapper invokes the continuation, and
    goes on with the argument of the first invocation when there is one.
\<close>

theorem wrapper_continuation_calls:
  "(stop_seen (cb p) \<longrightarrow> by_wrapper (wrappedCallback ev cb p) = [])
   \<and> (ending (cb p) = ReturnsPromise None \<longrightarrow> by_wrapper (wrappedCallback ev cb p) = [])
   \<and> (\<not> stop_seen (cb p) \<and> ending (cb p) \<noteq> ReturnsPromise None \<longrightarrow>
        length (by_wrapper (wrappedCallback ev cb p)) = 1)
   \<and> set (calls (wrappedCallback ev cb p)) =
        set (body_calls (body (cb p))) \<union> set (deferred_calls (deferred (cb p)))
        \<union> set (by_wrapper (wrappedCallback ev cb p))
   \<and> (em ev = [wrappedCallback ev cb]
        \<and> calls (wrappedCallback ev cb (AList.update ''prev'' c ps)) = [] \<longrightarrow>
        settled (executeChain_from em c (\<lparr>event = ev, props = ps\<rparr> # rest)) = Pending
        \<and> emitted (executeChain_from em c (\<lparr>event = ev, props = ps\<rparr> # rest))
            = [(ev, AList.update ''prev'' c ps)])
   \<and> (em ev = [wrappedCallback ev cb]
        \<and> earliest (calls (wrappedCallback ev cb (AList.update ''prev'' c ps))) = Some k \<longrightarrow>
        settled (executeChain_from em c (\<lparr>event = ev, props = ps\<rparr> # rest))
          = settled (executeChain_from em (if arg k = Undefined then Obj [] else arg k) rest)
        \<and> emitted (executeChain_from em c (\<lparr>event = ev, props = ps\<rparr> # rest))
            = (ev, AList.update ''prev'' c ps)
              # emitted (executeChain_from em (if arg k = Undefined then Obj [] else arg k) rest))"
proof (intro conjI impI)
  assume "stop_seen (cb p)"
  then show "by_wrapper (wrappedCallback ev cb p) = []"
    by (rule by_wrapper_stopped)
next
  assume "ending (cb p) = ReturnsPromise None"
  then show "by_wrapper (wrappedCallback ev cb p) = []"
    by (rule by_wrapper_never_settles)
next
  assume "\<not> stop_seen (cb p) \<and> ending (cb p) \<noteq> ReturnsPromise None"
  then show "length (by_wrapper (wrappedCallback ev cb p)) = 1"
    by (simp add: by_wrapper_once)
next
  show "set (calls (wrappedCallback ev cb p)) =
        set (body_calls (body (cb p))) \<union> set (deferred_calls (deferred (cb p)))
        \<union> set (by_wrapper (wrappedCallback ev cb p))"
    by (rule calls_wrappedCallback_set)
next
  assume a: "em ev = [wrappedCallback ev cb]
        \<and> calls (wrappedCallback ev cb (AList.update ''prev'' c ps)) = []"
  then have em: "em ev = [wrappedCallback ev cb]"
    and none: "earliest (calls (wrappedCallback ev cb (AList.update ''prev'' c ps))) = None"
    by simp_all
  have step: "executeChain_from em c (\<lparr>event = ev, props = ps\<rparr> # rest) =
           (case earliest (calls (wrappedCallback ev cb (AList.update ''prev'' c ps))) of
              None \<Rightarrow>
                \<lparr>settled = Pending, emitted = [(ev, AList.update ''prev'' c ps)],
                 console = errors (wrappedCallback ev cb (AList.update ''prev'' c ps))\<rparr>
            | Some k \<Rightarrow>
                \<lparr>settled = settled (executeChain_from em
                             (if arg k = Undefined then Obj [] else arg k) rest),
                 emitted = (ev, AList.update ''prev'' c ps)
                           # emitted (executeChain_from em
                               (if arg k = Undefined then Obj [] else arg k) rest),
                 console = errors (wrappedCallback ev cb (AList.update ''prev'' c ps))
                           @ console (executeChain_from em
                               (if arg k = Undefined then Obj [] else arg k) rest)\<rparr>)"
    using em by (rule executeChain_from_step) simp
  show "settled (executeChain_from em c (\<lparr>event = ev, props = ps\<rparr> # rest)) = Pending"
    unfolding step by (simp add: none)
  show "emitted (executeChain_from em c (\<lparr>event = ev, props = ps\<rparr> # rest))
            = [(ev, AList.update ''prev'' c ps)]"
    unfolding step by (simp add: none)
next
  assume a: "em ev = [wrappedCallback ev cb]
        \<and> earliest (calls (wrappedCallback ev cb (AList.update ''prev'' c ps))) = Some k"
  then have em: "em ev = [wrappedCallback ev cb]"
    and some: "earliest (calls (wrappedCallback ev cb (AList.update ''prev'' c ps))) = Some k"
    by simp_all
  have step: "executeChain_from em c (\<lparr>event = ev, props = ps\<rparr> # rest) =
           (case earliest (calls (wrappedCallback ev cb (AList.update ''prev'' c ps))) of
              None \<Rightarrow>
                \<lparr>settled = Pending, emitted = [(ev, AList.update ''prev'' c ps)],
                 console = errors (wrappedCallback ev cb (AList.update ''prev'' c ps))\<rparr>
            | Some k \<Rightarrow>
                \<lparr>settled = settled (executeChain_from em
                             (if arg k = Undefined then Obj [] else arg k) rest),
                 emitted = (ev, AList.update ''prev'' c ps)
                           # emitted (executeChain_from em
                               (if arg k = Undefined then Obj [] else arg k) rest),
                 console = errors (wrappedCallback ev cb (AList.update ''prev'' c ps))
                           @ console (executeChain_from em
                               (if arg k = Undefined then Obj [] else arg k) rest)\<rparr>)"
    using em by (rule executeChain_from_step) simp
  show "settled (executeChain_from em c (\<lparr>event = ev, props = ps\<rparr> # rest))
          = settled (executeChain_from em (if arg k = Undefined then Obj [] else arg k) rest)"
    unfolding step by (simp add: some)
  show "emitted (executeChain_from em c (\<lparr>event = ev, props = ps\<rparr> # rest))
            = (ev, AList.update ''prev'' c ps)
              # emitted (executeChain_from em (if arg k = Undefined then Obj [] else arg k) rest)"
    unfolding step by (simp add: some)
qed

theorem wrapper_continuation_calls_witness:
  "stop_seen (stopper [])
   \<and> by_wrapper (wrappedCallback ''a'' stopper []) = []
   \<and> \<not> stop_seen (answers []) \<and> ending (answers []) \<noteq> ReturnsPromise None
   \<and> length (by_wrapper (wrappedCallback ''a'' answers [])) = 1
   \<and> length (calls (wrappedCallback ''a'' answers [])) = 2
   \<and> emitter (on new_UIBridge ''a'' stopper) ''a'' = [wrappedCallback ''a'' stopper]
   \<and> calls (wrappedCallback ''a'' stopper (AList.update ''prev'' (Obj []) [])) = []
   \<and> settled (executeChain_from (emitter (on new_UIBridge ''a'' stopper)) (Obj [])
         [\<lparr>event = ''a'', props = []\<rparr>, \<lparr>event = ''b'', props = []\<rparr>]) = Pending
   \<and> emitted (executeChain_from (emitter (on new_UIBridge ''a'' stopper)) (Obj [])
         [\<lparr>event = ''a'', props = []\<rparr>, \<lparr>event = ''b'', props = []\<rparr>])
       = [(''a'', [(''prev'', Obj [])])]"
proof -
  have 1: "stop_seen (stopper [])"
    by (simp add: stop_seen_def stopper_def)
  have 2: "\<not> stop_seen (answers []) \<and> ending (answers []) \<noteq> ReturnsPromise None"
    by (simp add: stop_seen_def answers_def)
  have 3: "length (calls (wrappedCallback ''a'' answers [])) = 2"
    by (simp add: wrappedCallback_def answers_def body_calls_def deferred_calls_def Let_def)
  have 4: "emitter (on new_UIBridge ''a'' stopper) ''a'' = [wrappedCallback ''a'' stopper]
     \<and> calls (wrappedCallback ''a'' stopper (AList.update ''prev'' (Obj []) [])) = []"
    by (simp add: on_def new_UIBridge_def emitter_on_def SLEEP_EVENT_def wrappedCallback_def
        stopper_def body_calls_def deferred_calls_def Let_def)
  show ?thesis
    using 1 2 3 4
      wrapper_continuation_calls [of stopper "[]" "''a''" "emitter (on new_UIBridge ''a'' stopper)"
        "Obj []" "[]" "[\<lparr>event = ''b'', props = []\<rparr>]"]
      wrapper_continuation_calls [of answers "[]" "''a''"]
    by simp
qed

text \<open>
  C5, as the claim states it, fails: a handler that invokes the continuation and then
  \<open>stop\<close> does not halt the chain.  The wrapper makes no invocation, but the
  handler's own has resolved the step: the next step is dispatched with the handler's
  argument as \<open>prev\<close>, and the promise of \<open>consume\<close> resolves.
\<close>

theorem stop_after_next_counterexample:
  "CallStop \<in> set (body (next_then_stop [(''prev'', Obj [])]))
   \<and> by_wrapper (wrappedCallback ''x'' next_then_stop [(''prev'', Obj [])]) = []
   \<and> settled (snd (consume (fst (snd declared_xy)) (fst declared_xy) ''t''))
       = Resolved (Obj [(''prev'', Obj [(''n'', Num 2)])])
   \<and> emitted (snd (consume (fst (snd declared_xy)) (fst declared_xy) ''t''))
       = [(''x'', [(''prev'', Obj [])]), (''y'', [(''prev'', Obj [(''n'', Num 2)])])]"
  by (simp add: declared_xy_def builder_simps engine_simps next_then_stop_def noop_def
      by_wrapper_def)

section \<open>Failing handlers\<close>

lemma emitter_foldl_on:
  "emitter (foldl (\<lambda>ui (ev, cb). on ui ev cb) ui0 regs) ev =
     emitter ui0 ev @ map (\<lambda>(e, cb). wrappedCallback e cb) (filter (\<lambda>(e, cb). e = ev) regs)"
  by (induction regs arbitrary: ui0) (auto simp: on_def emitter_on_def)

lemma emitter_bridge_with:
  "emitter (bridge_with regs) ev =
     (if ev = SLEEP_EVENT then [sleep_handler] else [])
     @ map (\<lambda>(e, cb). wrappedCallback e cb) (filter (\<lambda>(e, cb). e = ev) regs)"
  by (simp add: bridge_with_def emitter_foldl_on new_UIBridge_def emitter_on_def)

lemma raised_emit_to:
  assumes "\<forall>l \<in> set ls. raised (l p) = None"
  shows "raised (emit_to ls p) = None"
  using assms by (induction ls) (auto simp: Let_def)

lemma sleep_handler_raised [simp]: "raised (sleep_handler p) = None"
  by (simp add: sleep_handler_def Let_def)

lemma raised_emit_bridge_with: "raised (emit (emitter (bridge_with regs)) ev p) = None"
  unfolding emit_def
  by (rule raised_emit_to) (auto simp: emitter_bridge_with)

lemma executeChain_from_never_rejects:
  assumes "\<And>ev p. raised (emit em ev p) = None"
  shows "settled (executeChain_from em c steps) \<noteq> Rejected e"
proof (induction steps arbitrary: c)
  case Nil
  show ?case by simp
next
  case (Cons s steps)
  have nr: "awaited_step (emit em (event s) q) \<noteq> Rejected e'" for q e'
    using assms [of "event s" q]
    by (simp add: awaited_step_def split: option.splits)
  show ?case
    using Cons.IH nr
    by (auto simp: Let_def split: outcome.splits)
qed

text \<open>
  The promise of \<open>consume\<close> never rejects, on a bridge whose listeners are the delay
  handler and the wrappers that \<open>on\<close> registers.
\<close>

lemma consume_never_rejects:
  assumes "emitter ui = emitter (bridge_with regs)"
  shows "settled (snd (consume h ui cid)) \<noteq> Rejected e"
  using assms
    executeChain_from_never_rejects [of "emitter (bridge_with regs)", OF raised_emit_bridge_with]
  by (simp add: consume_def executeChain_def Let_def split: option.splits)

text \<open>
  A handler that throws, or that returns a promise that rejects without having called
  \<open>stop\<close> in its synchronous body: the wrapper catches the error and logs it with
  the event name, and unless \<open>stop\<close> was called it invokes the continuation once,
  with the execution context the handler received.
\<close>

lemma handler_failure_isolated:
  assumes "ending (cb p) = Throws e
         \<or> (CallStop \<notin> set (body (cb p))
             \<and> (\<exists>t. ending (cb p) = ReturnsPromise (Some (t, Rejects e))))"
  shows "errors (wrappedCallback ev cb p) = [Error_in_handler ev e]
       \<and> raised (wrappedCallback ev cb p) = None
       \<and> map arg (by_wrapper (wrappedCallback ev cb p))
           = (if stop_seen (cb p) then [] else [Obj p])"
  using assms
proof (elim disjE conjE exE)
  assume "ending (cb p) = Throws e"
  then show ?thesis
    by (simp add: wrappedCallback_Throws by_wrapper_def stop_seen_def)
next
  fix t
  assume "CallStop \<notin> set (body (cb p))"
    and "ending (cb p) = ReturnsPromise (Some (t, Rejects e))"
  then show ?thesis
    by (simp add: wrappedCallback_Rejects by_wrapper_def stop_seen_def)
qed

text \<open>
  C3.  The wrapper does not catch every failure of a handler.  A handler that calls
  \<open>stop\<close> in its synchronous body and returns a promise that rejects (an
  \<^verbatim>\<open>async\<close> handler that calls \<^verbatim>\<open>stop()\<close> and then throws): the wrapper returns
  at its first check of \<open>isStopped\<close>, before it awaits the promise, so the rejection is
  never caught and nothing is logged.  The same failure thrown synchronously is caught
  and logged with the event name.
\<close>

theorem rejection_after_stop_not_caught:
  "ending (stop_then_reject [(''prev'', Obj [])]) = ReturnsPromise (Some (0, Rejects (Str ''boom'')))
   \<and> errors (wrappedCallback ''x'' stop_then_reject [(''prev'', Obj [])]) = []
   \<and> errors (wrappedCallback ''x'' stop_then_throw [(''prev'', Obj [])])
       = [Error_in_handler ''x'' (Str ''boom'')]
   \<and> console (executeChain (emitter (on new_UIBridge ''x'' stop_then_reject))
         [\<lparr>event = ''x'', props = []\<rparr>]) = []"
  by (simp add: stop_then_reject_def stop_then_throw_def wrappedCallback_def body_calls_def
      deferred_calls_def engine_simps SLEEP_EVENT_def)

section \<open>Data threading\<close>

text \<open>
  The first invocation that the executor's promise takes is the head of the invocations
  sorted by time.
\<close>

lemma earliest_sort_key:
  "earliest cs = (case sort_key time cs of [] \<Rightarrow> None | c # rest \<Rightarrow> Some c)"
proof (induction cs)
  case Nil
  show ?case by simp
next
  case (Cons c cs)
  show ?case
  proof (cases "sort_key time cs")
    case Nil
    with Cons.IH show ?thesis by simp
  next
    case (Cons d ds)
    with Cons.IH show ?thesis by simp
  qed
qed

lemma calls_emit_to_dispatch:
  assumes "\<forall>l \<in> set ls. raised (l p) = None"
  shows "calls (emit_to ls p) = spec_dispatch ls p"
  using assms by (induction ls) (simp_all add: spec_dispatch_def Let_def)

lemma awaited_step_spec:
  assumes "\<forall>l \<in> set (em ev). \<forall>q. raised (l q) = None"
  shows "awaited_step (emit em ev p) =
           (case spec_continuation_value (spec_dispatch (em ev) p) of
              None \<Rightarrow> Pending
            | Some v \<Rightarrow> Resolved v)"
proof -
  have r: "raised (emit em ev p) = None"
    unfolding emit_def using assms by (intro raised_emit_to) simp
  have c: "calls (emit em ev p) = spec_dispatch (em ev) p"
    unfolding emit_def using assms by (intro calls_emit_to_dispatch) simp
  show ?thesis
  proof (cases "sort_key time (spec_dispatch (em ev) p)")
    case Nil
    then show ?thesis
      by (simp add: awaited_step_def r c earliest_sort_key spec_continuation_value_def)
  next
    case (Cons k ks)
    then show ?thesis
      by (cases "arg k")
         (simp_all add: awaited_step_def r c earliest_sort_key spec_continuation_value_def)
  qed
qed

lemma spec_step_stalled:
  "spec_step em \<lparr>carry = None, dispatches = ds\<rparr> s = \<lparr>carry = None, dispatches = ds\<rparr>"
  by (simp add: spec_step_def)

lemma spec_step_passthrough:
  "em (event s) = [] \<Longrightarrow>
   spec_step em \<lparr>carry = Some c, dispatches = ds\<rparr> s =
     \<lparr>carry = Some (Obj (AList.update ''prev'' c (props s))), dispatches = ds\<rparr>"
  by (simp add: spec_step_def Let_def)

lemma spec_step_dispatch:
  "em (event s) \<noteq> [] \<Longrightarrow>
   spec_step em \<lparr>carry = Some c, dispatches = ds\<rparr> s =
     \<lparr>carry = spec_continuation_value
                (spec_dispatch (em (event s)) (AList.update ''prev'' c (props s))),
      dispatches = ds @ [(event s, AList.update ''prev'' c (props s))]\<rparr>"
  by (simp add: spec_step_def Let_def)

lemma foldl_spec_step_stalled:
  "foldl (spec_step em) \<lparr>carry = None, dispatches = ds\<rparr> steps
     = \<lparr>carry = None, dispatches = ds\<rparr>"
  by (induction steps) (simp_all add: spec_step_stalled)

text \<open>
  Where no listener throws, the loop of the executor and the fold of the specification
  agree from every carry-forward context on.
\<close>

lemma foldl_spec_step:
  assumes nr: "\<And>ev. \<forall>l \<in> set (em ev). \<forall>q. raised (l q) = None"
  shows "foldl (spec_step em) \<lparr>carry = Some c, dispatches = ds\<rparr> steps =
     \<lparr>carry = (case settled (executeChain_from em c steps) of
                 Resolved v \<Rightarrow> Some v | _ \<Rightarrow> None),
      dispatches = ds @ emitted (executeChain_from em c steps)\<rparr>"
proof (induction steps arbitrary: c ds)
  case Nil
  show ?case by simp
next
  case (Cons s steps)
  let ?ctx = "AList.update ''prev'' c (props s)"
  show ?case
  proof (cases "em (event s) = []")
    case True
    then show ?thesis
      using Cons.IH [of "Obj ?ctx" ds]
      by (simp add: spec_step_passthrough listenerCount_def)
  next
    case False
    note step = awaited_step_spec [of em "event s" ?ctx, OF nr]
    show ?thesis
    proof (cases "spec_continuation_value (spec_dispatch (em (event s)) ?ctx)")
      case None
      with False step show ?thesis
        by (simp add: spec_step_dispatch listenerCount_def Let_def foldl_spec_step_stalled)
    next
      case (Some v)
      with False step show ?thesis
        using Cons.IH [of v "ds @ [(event s, ?ctx)]"]
        by (simp add: spec_step_dispatch listenerCount_def Let_def)
    qed
  qed
qed

lemma bridge_listeners_never_raise:
  "\<forall>l \<in> set (emitter (bridge_with regs) ev). \<forall>q. raised (l q) = None"
  by (auto simp: emitter_bridge_with)

lemma settled_Pending_iff:
  assumes "\<forall>e. x \<noteq> Rejected e"
  shows "(case x of Resolved v \<Rightarrow> Some v | _ \<Rightarrow> None) = None \<longleftrightarrow> x = Pending"
  using assms by (cases x) auto

text \<open>
  C2.  On a bridge (its listeners are the delay handler and the wrappers that \<open>on\<close>
  registers) the executor threads data as the consume algorithm says: it goes through
  the steps in declared order from the empty mapping; the execution context of a step
  is the step's own parameters with \<open>prev\<close> set to the carry-forward context; a step
  whose event has no listener is not dispatched and its execution context becomes the
  carry-forward context; a dispatched step's carry-forward context is the value that
  the first invocation of the continuation passes, \<^verbatim>\<open>{}\<close> when that is
  \<^verbatim>\<open>undefined\<close>; the promise resolves with a value exactly when the algorithm ends
  with that value as its carry-forward context, and stays pending exactly when the
  algorithm stops at a step whose continuation is never invoked.  The same holds of
  \<open>consume\<close> on a declared chain, for the items read from its array.
\<close>

theorem executor_data_threading:
  assumes "emitter ui = emitter (bridge_with regs)"
  shows "emitted (executeChain (emitter ui) steps) = dispatches (spec_consume (emitter ui) steps)
   \<and> (settled (executeChain (emitter ui) steps) = Resolved v
        \<longleftrightarrow> carry (spec_consume (emitter ui) steps) = Some v)
   \<and> (settled (executeChain (emitter ui) steps) = Pending
        \<longleftrightarrow> carry (spec_consume (emitter ui) steps) = None)
   \<and> (map_of (declaredChains ui) cid = Some c \<longrightarrow>
        emitted (snd (consume h ui cid))
          = dispatches (spec_consume (emitter ui) (read_items h (dc_items c)))
        \<and> (settled (snd (consume h ui cid)) = Resolved v
             \<longleftrightarrow> carry (spec_consume (emitter ui) (read_items h (dc_items c))) = Some v)
        \<and> (settled (snd (consume h ui cid)) = Pending
             \<longleftrightarrow> carry (spec_consume (emitter ui) (read_items h (dc_items c))) = None))"
proof -
  have nr: "\<And>ev. \<forall>l \<in> set (emitter ui ev). \<forall>q. raised (l q) = None"
    unfolding assms by (rule bridge_listeners_never_raise)
  have fold: "spec_consume (emitter ui) its =
       \<lparr>carry = (case settled (executeChain (emitter ui) its) of
                   Resolved v \<Rightarrow> Some v | _ \<Rightarrow> None),
        dispatches = emitted (executeChain (emitter ui) its)\<rparr>" for its
    using foldl_spec_step [of "emitter ui" "Obj []" "[]" its, OF nr]
    by (simp add: spec_consume_def executeChain_def)
  have norej: "settled (executeChain (emitter ui) its) \<noteq> Rejected e" for its e
    unfolding assms executeChain_def
    by (rule executeChain_from_never_rejects) (rule raised_emit_bridge_with)
  have pend: "(carry (spec_consume (emitter ui) its) = None)
                = (settled (executeChain (emitter ui) its) = Pending)" for its
    using settled_Pending_iff [of "settled (executeChain (emitter ui) its)"] norej [of its]
    by (simp add: fold)
  have res: "(carry (spec_consume (emitter ui) its) = Some v)
                = (settled (executeChain (emitter ui) its) = Resolved v)" for its
    by (cases "settled (executeChain (emitter ui) its)") (auto simp: fold)
  have disp: "dispatches (spec_consume (emitter ui) its) = emitted (executeChain (emitter ui) its)"
    for its
    by (simp add: fold)
  show ?thesis
    by (simp add: pend res disp consume_def Let_def)
qed

lemma spec_consume_threads:
  "spec_consume (emitter (fst declared_threads)) (read_items (fst (snd declared_threads))
      (dc_items (snd (snd declared_threads))))
   = \<lparr>carry = Some (Obj []),
      dispatches = [(''x'', [(''prev'', Obj [])]),
                    (''y'', [(''prev'', Obj [(''prev'', Obj [(''n'', Num 2)])])])]\<rparr>"
  by (simp add: spec_consume_def spec_step_def spec_continuation_value_def spec_dispatch_def
      declared_threads_def threads_bridge_def builder_simps new_UIBridge_def on_def
      emitter_on_def wrappedCallback_def body_calls_def deferred_calls_def next_arg_def
      resolves_five_def answers_def bare_next_def Let_def)

theorem executor_data_threading_witness:
  "emitter (fst declared_threads) = emitter (bridge_with
      [(''x'', resolves_five), (''x'', answers), (''y'', bare_next)])
   \<and> map_of (declaredChains (fst declared_threads)) ''t'' = Some (snd (snd declared_threads))
   \<and> emitted (snd (consume (fst (snd declared_threads)) (fst declared_threads) ''t''))
       = [(''x'', [(''prev'', Obj [])]),
          (''y'', [(''prev'', Obj [(''prev'', Obj [(''n'', Num 2)])])])]
   \<and> settled (snd (consume (fst (snd declared_threads)) (fst declared_threads) ''t''))
       = Resolved (Obj [])"
proof -
  have 1: "emitter (fst declared_threads) = emitter (bridge_with
      [(''x'', resolves_five), (''x'', answers), (''y'', bare_next)])"
    by (simp add: declared_threads_def threads_bridge_def proxy_build_def bridge_with_def
        on_def split: prod.splits)
  have 2: "map_of (declaredChains (fst declared_threads)) ''t'' = Some (snd (snd declared_threads))"
    by (simp add: declared_threads_def threads_bridge_def builder_simps on_def new_UIBridge_def)
  note threading = executor_data_threading [OF 1, of "[]" "Obj []" "''t''"
      "snd (snd declared_threads)" "fst (snd declared_threads)"]
  from threading 2
  have 3: "emitted (snd (consume (fst (snd declared_threads)) (fst declared_threads) ''t''))
          = dispatches (spec_consume (emitter (fst declared_threads))
              (read_items (fst (snd declared_threads)) (dc_items (snd (snd declared_threads)))))"
    by blast
  from threading 2
  have 4: "settled (snd (consume (fst (snd declared_threads)) (fst declared_threads) ''t''))
            = Resolved (Obj [])
          \<longleftrightarrow> carry (spec_consume (emitter (fst declared_threads))
              (read_items (fst (snd declared_threads)) (dc_items (snd (snd declared_threads)))))
            = Some (Obj [])"
    by blast
  have 5: "emitted (snd (consume (fst (snd declared_threads)) (fst declared_threads) ''t''))
       = [(''x'', [(''prev'', Obj [])]),
          (''y'', [(''prev'', Obj [(''prev'', Obj [(''n'', Num 2)])])])]"
    unfolding 3 by (simp add: spec_consume_threads)
  have 6: "settled (snd (consume (fst (snd declared_threads)) (fst declared_threads) ''t''))
       = Resolved (Obj [])"
    unfolding 4 by (simp add: spec_consume_threads)
  show ?thesis
    using 1 2 5 6 by (intro conjI)
qed

section \<open>The builder on the heap\<close>

lemma grows_refl: "grows a h h"
  by (simp add: grows_def)

lemma grows_trans: "grows a h h' \<Longrightarrow> grows a h' h'' \<Longrightarrow> grows a h h''"
  by (auto simp: grows_def)

lemma read_items_frame:
  assumes "grows a h h'" and "x < lim h" and "x \<noteq> a"
    and "\<forall>i \<in> set (arrays h x). i < lim h \<and> snd (chain_items h i) < lim h"
  shows "read_items h' x = read_items h x"
  using assms by (auto simp: grows_def read_items_def read_item_def)

text \<open>The operations of the builder, as updates of the heap.\<close>

lemma add_Some:
  "add (h, b) ev (Some a) =
     (h\<lparr>lim := Suc (lim h),
        chain_items := (chain_items h)(lim h := (ev, a)),
        arrays := (arrays h)(items b := arrays h (items b) @ [lim h])\<rparr>, b)"
  by (simp add: add_def new_chain_item_def push_def)

lemma add_None:
  "add (h, b) ev None =
     (h\<lparr>lim := Suc (Suc (lim h)),
        objects := (objects h)(lim h := []),
        chain_items := (chain_items h)(Suc (lim h) := (ev, lim h)),
        arrays := (arrays h)(items b := arrays h (items b) @ [Suc (lim h)])\<rparr>, b)"
  by (simp add: add_def new_object_def new_chain_item_def push_def)

lemma add_None_Some:
  "add (h, b) ev None = add (fst (new_object h []), b) ev (Some (snd (new_object h [])))"
  by (simp add: add_def new_object_def)

lemma sleep_eq:
  "sleep (h, b) d =
     (h\<lparr>lim := Suc (Suc (lim h)),
        objects := (objects h)(lim h := [(''duration'', d)]),
        chain_items := (chain_items h)(Suc (lim h) := (SLEEP_EVENT, lim h)),
        arrays := (arrays h)(items b := arrays h (items b) @ [Suc (lim h)])\<rparr>, b)"
  by (simp add: sleep_def add_def new_object_def new_chain_item_def push_def)

lemma batch_item_eq:
  "batch_item (h, b) item =
     (if b_event item = ''sleep'' \<and>
         truthy (case b_props item of None \<Rightarrow> Undefined
                 | Some a \<Rightarrow> get_prop (objects h a) ''duration'')
      then sleep (h, b) (case b_props item of None \<Rightarrow> Undefined
                         | Some a \<Rightarrow> get_prop (objects h a) ''duration'')
      else add (h, b) (b_event item) (b_props item))"
  by (auto simp: batch_item_def Let_def add_None_Some new_object_def split: option.splits)

lemma meta_eq:
  "meta (h, b) md =
     (h\<lparr>lim := Suc (lim h),
        objects := (objects h)(lim h := spread (objects h (metadata b)) (objects h md))\<rparr>,
      b\<lparr>metadata := lim h\<rparr>)"
  by (simp add: meta_def new_object_def)

lemma build_eq:
  "build (h, b) now =
     (h\<lparr>lim := Suc (Suc (lim h)),
        arrays := (arrays h)(lim h := arrays h (items b)),
        objects := (objects h)(Suc (lim h) := spread [] (objects h (metadata b)))\<rparr>,
      \<lparr>dc_id = chainId b, dc_items = lim h, dc_createdAt = now, dc_metadata = Suc (lim h)\<rparr>)"
  by (simp add: build_def new_array_def new_object_def)

text \<open>
  Every operation of the builder allocates, and writes to the builder's own array
  only; none replaces the array.
\<close>

lemma add_grows: "grows (items b) h (fst (add (h, b) ev p))"
  by (cases p) (auto simp: add_Some add_None grows_def)

lemma add_builder [simp]: "snd (add (h, b) ev p) = b"
  by (cases p) (simp_all add: add_Some add_None)

lemma sleep_grows: "grows (items b) h (fst (sleep (h, b) d))"
  by (auto simp: sleep_eq grows_def)

lemma sleep_builder [simp]: "snd (sleep (h, b) d) = b"
  by (simp add: sleep_eq)

lemma batch_item_grows: "grows (items b) h (fst (batch_item (h, b) item))"
  by (simp add: batch_item_eq add_grows sleep_grows)

lemma batch_item_builder [simp]: "snd (batch_item (h, b) item) = b"
  by (simp add: batch_item_eq)

lemma batch_builder [simp]: "snd (batch (h, b) events) = b"
proof (induction events arbitrary: h)
  case Nil
  show ?case by (simp add: batch_def)
next
  case (Cons item events)
  obtain h1 where h1: "batch_item (h, b) item = (h1, b)"
    using batch_item_builder [of h b item] by (cases "batch_item (h, b) item") simp
  show ?case
    using Cons.IH [of h1] by (simp add: batch_def h1)
qed

lemma batch_grows: "grows (items b) h (fst (batch (h, b) events))"
proof (induction events arbitrary: h)
  case Nil
  show ?case by (simp add: batch_def grows_refl)
next
  case (Cons item events)
  obtain h1 where h1: "batch_item (h, b) item = (h1, b)"
    using batch_item_builder [of h b item] by (cases "batch_item (h, b) item") simp
  have "grows (items b) h h1"
    using batch_item_grows [of b h item] by (simp add: h1)
  moreover have "grows (items b) h1 (fst (batch (h1, b) events))"
    by (rule Cons.IH)
  ultimately show ?case
    by (simp add: batch_def h1 grows_trans)
qed

lemma meta_grows: "grows a h (fst (meta (h, b) md))"
  by (auto simp: meta_eq grows_def)

lemma meta_items [simp]: "items (snd (meta (h, b) md)) = items b"
  by (simp add: meta_eq)

lemma apply_call_items [simp]: "items (snd (apply_call (h, b) call)) = items b"
  by (cases call) simp_all

lemma apply_call_grows: "grows (items b) h (fst (apply_call (h, b) call))"
  by (cases call) (simp_all add: add_grows sleep_grows batch_grows meta_grows)

lemma foldl_apply_call:
  "grows (items b) h (fst (foldl apply_call (h, b) cs))
   \<and> items (snd (foldl apply_call (h, b) cs)) = items b"
proof (induction cs arbitrary: h b)
  case Nil
  show ?case by (simp add: grows_refl)
next
  case (Cons call cs)
  obtain h1 b1 where hb1: "apply_call (h, b) call = (h1, b1)"
    by (cases "apply_call (h, b) call")
  have b1: "items b1 = items b"
    using apply_call_items [of h b call] by (simp add: hb1)
  have "grows (items b) h h1"
    using apply_call_grows [of b h call] by (simp add: hb1)
  moreover have "grows (items b) h1 (fst (foldl apply_call (h1, b1) cs))"
    and "items (snd (foldl apply_call (h1, b1) cs)) = items b"
    using Cons.IH [of b1 h1] by (simp_all add: b1)
  ultimately show ?case
    by (auto simp: hb1 intro: grows_trans)
qed

text \<open>What the builder's array holds after each operation.\<close>

lemma read_items_add:
  assumes "wf_builder h b" and "\<forall>a. p = Some a \<longrightarrow> a < lim h"
  shows "read_items (fst (add (h, b) ev p)) (items b) =
           read_items h (items b)
           @ [\<lparr>event = ev, props = (case p of None \<Rightarrow> [] | Some a \<Rightarrow> objects h a)\<rparr>]"
proof (cases p)
  case None
  with assms show ?thesis
    by (auto simp: add_None wf_builder_def read_items_def read_item_def)
next
  case (Some a)
  with assms show ?thesis
    by (auto simp: add_Some wf_builder_def read_items_def read_item_def)
qed

lemma wf_builder_add:
  assumes "wf_builder h b" and "\<forall>a. p = Some a \<longrightarrow> a < lim h"
  shows "wf_builder (fst (add (h, b) ev p)) b"
proof (cases p)
  case None
  with assms show ?thesis
    by (auto simp: add_None wf_builder_def)
next
  case (Some a)
  with assms show ?thesis
    by (auto simp: add_Some wf_builder_def)
qed

text \<open>A builder made by \<open>chain\<close> is well-formed, and stays so.\<close>

lemma wf_builder_chain: "wf_builder (fst (chain h k)) (snd (chain h k))"
  by (simp add: chain_def new_UIChainBuilder_def new_array_def new_object_def wf_builder_def)

lemma wf_builder_meta:
  assumes "wf_builder h b"
  shows "wf_builder (fst (meta (h, b) md)) (snd (meta (h, b) md))"
  using assms by (auto simp: meta_eq wf_builder_def)

lemma read_items_sleep:
  assumes "wf_builder h b"
  shows "read_items (fst (sleep (h, b) d)) (items b) =
           read_items h (items b) @ [\<lparr>event = SLEEP_EVENT, props = [(''duration'', d)]\<rparr>]"
  using assms by (auto simp: sleep_eq wf_builder_def read_items_def read_item_def)

lemma wf_builder_sleep:
  assumes "wf_builder h b"
  shows "wf_builder (fst (sleep (h, b) d)) b"
  using assms by (auto simp: sleep_eq wf_builder_def)

lemma batch_item_duration:
  "batch_item (h, b) item =
     (if b_event item = ''sleep'' \<and> truthy (item_duration h item)
      then sleep (h, b) (item_duration h item)
      else add (h, b) (b_event item) (b_props item))"
  by (simp add: batch_item_eq item_duration_def)

lemma read_items_batch_item:
  assumes "wf_builder h b" and "\<forall>a. b_props item = Some a \<longrightarrow> a < lim h"
    and "b_event item = ''sleep'' \<longrightarrow>
           item_duration h item = Undefined \<or> truthy (item_duration h item)"
  shows "read_items (fst (batch_item (h, b) item)) (items b) =
           read_items h (items b) @ [spec_translate h item]"
proof (cases "b_event item = ''sleep'' \<and> truthy (item_duration h item)")
  case True
  then have "item_duration h item \<noteq> Undefined" by auto
  with True assms(1) show ?thesis
    by (auto simp: batch_item_duration spec_translate_def read_items_sleep)
next
  case False
  with assms(3) have no: "\<not> (b_event item = ''sleep'' \<and> item_duration h item \<noteq> Undefined)"
    by auto
  have "read_items (fst (batch_item (h, b) item)) (items b)
          = read_items (fst (add (h, b) (b_event item) (b_props item))) (items b)"
    using False by (auto simp: batch_item_duration)
  also have "\<dots> = read_items h (items b)
          @ [\<lparr>event = b_event item,
               props = (case b_props item of None \<Rightarrow> [] | Some a \<Rightarrow> objects h a)\<rparr>]"
    using assms(1,2) by (rule read_items_add)
  also have "\<dots> = read_items h (items b) @ [spec_translate h item]"
    using no by (auto simp: spec_translate_def)
  finally show ?thesis .
qed

lemma wf_builder_batch_item:
  assumes "wf_builder h b" and "\<forall>a. b_props item = Some a \<longrightarrow> a < lim h"
  shows "wf_builder (fst (batch_item (h, b) item)) b"
  using assms by (simp add: batch_item_eq wf_builder_add wf_builder_sleep)

lemma item_duration_grows:
  assumes "grows x h h'" and "\<forall>a. b_props item = Some a \<longrightarrow> a < lim h"
  shows "item_duration h' item = item_duration h item"
  using assms by (cases "b_props item") (auto simp: item_duration_def grows_def)

lemma spec_translate_grows:
  assumes "grows x h h'" and "\<forall>a. b_props item = Some a \<longrightarrow> a < lim h"
  shows "spec_translate h' item = spec_translate h item"
  using assms item_duration_grows [OF assms]
  by (cases "b_props item") (auto simp: spec_translate_def grows_def)

lemma read_items_batch:
  assumes "wf_builder h b"
    and "\<forall>item \<in> set events. \<forall>a. b_props item = Some a \<longrightarrow> a < lim h"
    and "\<forall>item \<in> set events. b_event item = ''sleep'' \<longrightarrow>
           item_duration h item = Undefined \<or> truthy (item_duration h item)"
  shows "read_items (fst (batch (h, b) events)) (items b) =
           read_items h (items b) @ map (spec_translate h) events"
  using assms
proof (induction events arbitrary: h)
  case Nil
  show ?case by (simp add: batch_def)
next
  case (Cons item events)
  obtain h1 where h1: "batch_item (h, b) item = (h1, b)"
    using batch_item_builder [of h b item] by (cases "batch_item (h, b) item") simp
  have item: "\<forall>a. b_props item = Some a \<longrightarrow> a < lim h"
    using Cons.prems(2) by simp
  have plain: "b_event item = ''sleep'' \<longrightarrow>
           item_duration h item = Undefined \<or> truthy (item_duration h item)"
    using Cons.prems(3) by simp
  have g: "grows (items b) h h1"
    using batch_item_grows [of b h item] by (simp add: h1)
  then have le: "lim h \<le> lim h1" by (simp add: grows_def)
  have wf1: "wf_builder h1 b"
    using wf_builder_batch_item [OF Cons.prems(1) item] by (simp add: h1)
  have rest: "\<forall>it \<in> set events. \<forall>a. b_props it = Some a \<longrightarrow> a < lim h1"
    using Cons.prems(2) le by auto
  have dur: "item_duration h1 it = item_duration h it" if "it \<in> set events" for it
  proof -
    from that Cons.prems(2) have "\<forall>a. b_props it = Some a \<longrightarrow> a < lim h" by simp
    with g show ?thesis by (rule item_duration_grows)
  qed
  have rest_plain: "\<forall>it \<in> set events. b_event it = ''sleep'' \<longrightarrow>
           item_duration h1 it = Undefined \<or> truthy (item_duration h1 it)"
    using Cons.prems(3) dur by simp
  have r1: "read_items h1 (items b) = read_items h (items b) @ [spec_translate h item]"
    using read_items_batch_item [OF Cons.prems(1) item plain] by (simp add: h1)
  have same: "map (spec_translate h1) events = map (spec_translate h) events"
  proof (rule map_cong [OF refl])
    fix it assume "it \<in> set events"
    with Cons.prems(2) have "\<forall>a. b_props it = Some a \<longrightarrow> a < lim h" by simp
    with g show "spec_translate h1 it = spec_translate h it"
      by (rule spec_translate_grows)
  qed
  have "read_items (fst (batch (h1, b) events)) (items b) =
          read_items h1 (items b) @ map (spec_translate h1) events"
    using Cons.IH [OF wf1 rest rest_plain] .
  then show ?case
    by (simp add: batch_def h1 r1 same)
qed

lemma batch_example:
  assumes "get_prop (objects h p1) ''duration'' = Num 10"
  shows "batch (h, b)
           [\<lparr>b_event = ''sleep'', b_props = Some p1\<rparr>, \<lparr>b_event = ''z'', b_props = Some p2\<rparr>]
           = add (sleep (h, b) (Num 10)) ''z'' (Some p2)"
  using assms by (simp add: batch_def batch_item_eq sleep_eq)

text \<open>Copying an object whose keys are distinct gives the same entries.\<close>

lemma update_fresh_key:
  "k \<notin> fst ` set al \<Longrightarrow> AList.update k v al = al @ [(k, v)]"
  by (induction al) auto

lemma foldl_update_distinct:
  "distinct (map fst (a @ m)) \<Longrightarrow> foldl (\<lambda>acc (k, v). AList.update k v acc) a m = a @ m"
proof (induction m arbitrary: a)
  case Nil
  show ?case by simp
next
  case (Cons kv m)
  obtain k v where kv: "kv = (k, v)" by (cases kv)
  from Cons.prems kv have fresh: "k \<notin> fst ` set a" by auto
  from Cons.prems kv have "distinct (map fst ((a @ [(k, v)]) @ m))" by auto
  then have "foldl (\<lambda>acc (k, v). AList.update k v acc) (a @ [(k, v)]) m = (a @ [(k, v)]) @ m"
    by (rule Cons.IH)
  then show ?case
    by (simp add: kv update_fresh_key [OF fresh])
qed

lemma spread_Nil_distinct: "distinct (map fst m) \<Longrightarrow> spread [] m = m"
  using foldl_update_distinct [of "[]" m] by (simp add: spread_def)

section \<open>Snapshots\<close>

lemma snapshot_frame:
  assumes wf: "wf_builder h b"
    and g: "grows (items b) (fst (build (h, b) now)) h2"
  shows "read_items h2 (lim h) = read_items h (items b)
       \<and> arrays h2 (lim h) = arrays h (items b)
       \<and> objects h2 (Suc (lim h)) = spread [] (objects h (metadata b))"
proof -
  let ?h1 = "fst (build (h, b) now)"
  have lim1: "lim ?h1 = Suc (Suc (lim h))"
    by (simp add: build_eq)
  have neq: "lim h \<noteq> items b"
    using wf by (auto simp: wf_builder_def)
  have arr1: "arrays ?h1 (lim h) = arrays h (items b)"
    by (simp add: build_eq)
  have elems: "\<forall>i \<in> set (arrays ?h1 (lim h)). i < lim ?h1 \<and> snd (chain_items ?h1 i) < lim ?h1"
    using wf by (auto simp: build_eq wf_builder_def)
  have r1: "read_items ?h1 (lim h) = read_items h (items b)"
    using wf by (auto simp: build_eq wf_builder_def read_items_def read_item_def)
  have "read_items h2 (lim h) = read_items ?h1 (lim h)"
    using g _ neq elems by (rule read_items_frame) (simp add: lim1)
  moreover have "arrays h2 (lim h) = arrays ?h1 (lim h)"
    using g neq by (simp add: grows_def lim1)
  moreover have "objects h2 (Suc (lim h)) = objects ?h1 (Suc (lim h))"
    using g by (simp add: grows_def lim1)
  moreover have "objects ?h1 (Suc (lim h)) = spread [] (objects h (metadata b))"
    by (simp add: build_eq)
  ultimately show ?thesis
    using r1 arr1 by simp
qed

text \<open>
  C8, as the code has it.  For a builder whose array, items and parameter objects are
  allocated, \<open>build\<close> returns a chain with the builder's id and the build time, whose
  array is a newly allocated array of the same item references (a shallow copy: the
  items and their parameter objects are shared with the builder, and the array reads as
  the builder's does) and whose metadata object is newly allocated with the entries of
  the builder's (the builder's own entries when its keys are distinct).  The proxy's
  \<open>build\<close> stores that chain under the builder's id, whatever was declared under it
  before, and leaves every other declaration alone.  No sequence of later calls of
  \<open>add\<close>, \<open>sleep\<close>, \<open>batch\<close> and \<open>meta\<close> on the builder changes the
  array or the metadata object of the built chain.  A builder made later by
  \<open>chain\<close> has an array that is neither the first builder's nor the built chain's.
\<close>

theorem build_snapshot:
  assumes "wf_builder h b" and "build (h, b) now = (h1, c)"
  shows "dc_id c = chainId b \<and> dc_createdAt c = now
       \<and> dc_items c = lim h \<and> dc_metadata c = Suc (lim h) \<and> lim h1 = Suc (Suc (lim h))
       \<and> arrays h1 (dc_items c) = arrays h (items b)
       \<and> read_items h1 (dc_items c) = read_items h (items b)
       \<and> objects h1 (dc_metadata c) = spread [] (objects h (metadata b))
       \<and> (distinct (map fst (objects h (metadata b))) \<longrightarrow>
            objects h1 (dc_metadata c) = objects h (metadata b))
       \<and> proxy_build ui (h, b) now =
            (ui\<lparr>declaredChains := AList.update (chainId b) c (declaredChains ui)\<rparr>, h1, c)
       \<and> map_of (declaredChains (fst (proxy_build ui (h, b) now))) (chainId b) = Some c
       \<and> (\<forall>k. k \<noteq> chainId b \<longrightarrow>
              map_of (declaredChains (fst (proxy_build ui (h, b) now))) k
                = map_of (declaredChains ui) k)
       \<and> (\<forall>cs. read_items (fst (foldl apply_call (h1, b) cs)) (dc_items c)
                  = read_items h (items b)
              \<and> arrays (fst (foldl apply_call (h1, b) cs)) (dc_items c) = arrays h (items b)
              \<and> objects (fst (foldl apply_call (h1, b) cs)) (dc_metadata c)
                  = objects h1 (dc_metadata c))
       \<and> (\<forall>h' k. lim h1 \<le> lim h' \<longrightarrow> items (snd (chain h' k)) \<notin> {items b, dc_items c})"
proof -
  have h1: "h1 = fst (build (h, b) now)" and c: "c = snd (build (h, b) now)"
    using assms(2) by simp_all
  have fields: "dc_id c = chainId b \<and> dc_createdAt c = now
       \<and> dc_items c = lim h \<and> dc_metadata c = Suc (lim h) \<and> lim h1 = Suc (Suc (lim h))"
    by (simp add: h1 c build_eq)
  have now1: "read_items h1 (lim h) = read_items h (items b)
       \<and> arrays h1 (lim h) = arrays h (items b)
       \<and> objects h1 (Suc (lim h)) = spread [] (objects h (metadata b))"
    unfolding h1 using assms(1) grows_refl by (rule snapshot_frame)
  have later: "read_items (fst (foldl apply_call (h1, b) cs)) (lim h) = read_items h (items b)
       \<and> arrays (fst (foldl apply_call (h1, b) cs)) (lim h) = arrays h (items b)
       \<and> objects (fst (foldl apply_call (h1, b) cs)) (Suc (lim h))
           = spread [] (objects h (metadata b))" for cs
    using assms(1) foldl_apply_call [of b h1 cs, THEN conjunct1]
    unfolding h1 by (rule snapshot_frame)
  have store: "proxy_build ui (h, b) now =
            (ui\<lparr>declaredChains := AList.update (chainId b) c (declaredChains ui)\<rparr>, h1, c)"
    using assms(2) by (simp add: proxy_build_def)
  have fresh: "items (snd (chain h' k)) \<notin> {items b, dc_items c}" if "lim h1 \<le> lim h'" for h' k
    using that assms(1) fields
    by (auto simp: chain_def new_UIChainBuilder_def new_array_def new_object_def wf_builder_def)
  show ?thesis
    using fields now1 later store fresh
    by (simp add: update_conv' spread_Nil_distinct)
qed

theorem build_snapshot_witness:
  "wf_builder (fst builder_x) (snd builder_x)
   \<and> read_items (fst (build builder_x 7)) (dc_items (snd (build builder_x 7)))
       = [\<lparr>event = ''x'', props = []\<rparr>]
   \<and> read_items (fst (foldl apply_call (fst (build builder_x 7), snd builder_x)
                        [Add ''y'' None, Sleep (Num 5)]))
        (dc_items (snd (build builder_x 7)))
       = [\<lparr>event = ''x'', props = []\<rparr>]
   \<and> dc_items (snd (build builder_x 7)) \<noteq> items (snd builder_x)"
proof -
  have 1: "wf_builder (fst builder_x) (snd builder_x)"
    by (simp add: builder_x_def builder_simps wf_builder_def)
  have 2: "build (fst builder_x, snd builder_x) 7 = (fst (build builder_x 7), snd (build builder_x 7))"
    by simp
  have 3: "read_items (fst builder_x) (items (snd builder_x)) = [\<lparr>event = ''x'', props = []\<rparr>]"
    by (simp add: builder_x_def builder_simps)
  have 4: "lim (fst builder_x) \<noteq> items (snd builder_x)"
    by (simp add: builder_x_def builder_simps)
  note snapshot = build_snapshot [OF 1 2, of new_UIBridge]
  from snapshot
  have a: "read_items (fst (build builder_x 7)) (dc_items (snd (build builder_x 7)))
             = read_items (fst builder_x) (items (snd builder_x))"
    by blast
  from snapshot
  have b: "read_items (fst (foldl apply_call (fst (build builder_x 7), snd builder_x)
                        [Add ''y'' None, Sleep (Num 5)]))
             (dc_items (snd (build builder_x 7)))
             = read_items (fst builder_x) (items (snd builder_x))"
    by blast
  from snapshot have c: "dc_items (snd (build builder_x 7)) = lim (fst builder_x)"
    by blast
  show ?thesis
    using 1 4 a b c by (simp only: 3) simp
qed

text \<open>
  C8, as the claim states it, fails: the array of the built chain is not a deep copy.
  It holds the very item objects of the builder's array, and these hold the parameter
  objects the caller passed to \<open>add\<close>; an assignment by the caller to such an object
  after \<open>build\<close> shows in the built chain.
\<close>

theorem shallow_copy_counterexample:
  "arrays (fst (build builder_n 7)) (dc_items (snd (build builder_n 7)))
     = arrays (fst (build builder_n 7)) (items (snd builder_n))
   \<and> arrays (fst (build builder_n 7)) (dc_items (snd (build builder_n 7))) \<noteq> []
   \<and> read_items (fst (build builder_n 7)) (dc_items (snd (build builder_n 7)))
       = [\<lparr>event = ''x'', props = [(''n'', Num 1)]\<rparr>]
   \<and> read_items (set_prop (fst (build builder_n 7)) (snd caller_params) ''n'' (Num 2))
        (dc_items (snd (build builder_n 7)))
       = [\<lparr>event = ''x'', props = [(''n'', Num 2)]\<rparr>]"
  by (simp add: builder_n_def caller_params_def set_prop_def builder_simps)

section \<open>Batches\<close>

text \<open>
  C9, as the code has it.  For a builder whose array, items and parameter objects are
  allocated, and batch items whose parameter objects are allocated and among which no
  item named \<^verbatim>\<open>"sleep"\<close> has a falsy duration (one that is \<^verbatim>\<open>0\<close>, \<^verbatim>\<open>null\<close>,
  \<^verbatim>\<open>false\<close> or the empty string): \<open>batch\<close> leaves the steps the builder holds and
  appends one step for each item, in order: the delay step \<^verbatim>\<open>{ duration }\<close> for an
  item named \<^verbatim>\<open>"sleep"\<close> that has a duration, and for every other item, also one
  named \<^verbatim>\<open>"sleep"\<close> that has no duration, the step with the item's name and its
  \<^verbatim>\<open>props\<close> (\<^verbatim>\<open>{}\<close> when it has none).  The batch of
  \<^verbatim>\<open>{ event: "sleep", props: p1 }\<close> with \<^verbatim>\<open>p1.duration === 10\<close> and
  \<^verbatim>\<open>{ event: "z", props: p2 }\<close> leaves the heap and the builder exactly as
  \<^verbatim>\<open>sleep(10)\<close> followed by \<^verbatim>\<open>add("z", p2)\<close> does.
\<close>

theorem batch_translation:
  assumes "wf_builder h b"
    and "\<forall>item \<in> set events. \<forall>a. b_props item = Some a \<longrightarrow> a < lim h"
    and "\<forall>item \<in> set events. b_event item = ''sleep'' \<longrightarrow>
           item_duration h item = Undefined \<or> truthy (item_duration h item)"
  shows "read_items (fst (batch (h, b) events)) (items b)
           = read_items h (items b) @ map (spec_translate h) events
       \<and> snd (batch (h, b) events) = b
       \<and> (get_prop (objects h p1) ''duration'' = Num 10 \<longrightarrow>
            batch (h, b)
              [\<lparr>b_event = ''sleep'', b_props = Some p1\<rparr>, \<lparr>b_event = ''z'', b_props = Some p2\<rparr>]
              = add (sleep (h, b) (Num 10)) ''z'' (Some p2))"
  using read_items_batch [OF assms] batch_example [of h p1 b p2]
  by simp

theorem batch_translation_witness:
  "wf_builder (fst builder_c) (snd builder_c)
   \<and> read_items
        (fst (batch builder_c
           [\<lparr>b_event = ''sleep'', b_props = Some 0\<rparr>, \<lparr>b_event = ''z'', b_props = Some 1\<rparr>,
            \<lparr>b_event = ''sleep'', b_props = None\<rparr>]))
        (items (snd builder_c))
       = [\<lparr>event = ''__SLEEP__'', props = [(''duration'', Num 10)]\<rparr>,
          \<lparr>event = ''z'', props = [(''a'', Num 1)]\<rparr>,
          \<lparr>event = ''sleep'', props = []\<rparr>]
   \<and> batch builder_c
        [\<lparr>b_event = ''sleep'', b_props = Some 0\<rparr>, \<lparr>b_event = ''z'', b_props = Some 1\<rparr>]
       = add (sleep builder_c (Num 10)) ''z'' (Some 1)"
proof -
  let ?events = "[\<lparr>b_event = ''sleep'', b_props = Some 0\<rparr>,
                  \<lparr>b_event = ''z'', b_props = Some (Suc 0)\<rparr>,
                  \<lparr>b_event = ''sleep'', b_props = None\<rparr>]"
  have 1: "wf_builder (fst builder_c) (snd builder_c)"
    by (simp add: builder_c_def builder_simps wf_builder_def)
  have 2: "\<forall>item \<in> set ?events. \<forall>a. b_props item = Some a \<longrightarrow> a < lim (fst builder_c)"
    by (simp add: builder_c_def builder_simps)
  have 3: "\<forall>item \<in> set ?events. b_event item = ''sleep'' \<longrightarrow>
             item_duration (fst builder_c) item = Undefined
             \<or> truthy (item_duration (fst builder_c) item)"
    by (simp add: item_duration_def builder_c_def builder_simps)
  have 4: "get_prop (objects (fst builder_c) 0) ''duration'' = Num 10"
    by (simp add: builder_c_def builder_simps)
  have 5: "read_items (fst builder_c) (items (snd builder_c)) = []"
    by (simp add: builder_c_def builder_simps)
  have 6: "map (spec_translate (fst builder_c)) ?events
           = [\<lparr>event = ''__SLEEP__'', props = [(''duration'', Num 10)]\<rparr>,
              \<lparr>event = ''z'', props = [(''a'', Num 1)]\<rparr>,
              \<lparr>event = ''sleep'', props = []\<rparr>]"
    by (simp add: spec_translate_def item_duration_def builder_c_def builder_simps)
  note translation = batch_translation [OF 1 2 3, of 0 "Suc 0", unfolded prod.collapse]
  from translation
  have a: "read_items (fst (batch builder_c ?events)) (items (snd builder_c))
       = read_items (fst builder_c) (items (snd builder_c))
         @ map (spec_translate (fst builder_c)) ?events"
    by blast
  from translation 4
  have b: "batch builder_c
        [\<lparr>b_event = ''sleep'', b_props = Some 0\<rparr>, \<lparr>b_event = ''z'', b_props = Some (Suc 0)\<rparr>]
       = add (sleep builder_c (Num 10)) ''z'' (Some (Suc 0))"
    by simp
  have c: "read_items (fst (batch builder_c ?events)) (items (snd builder_c))
       = [\<lparr>event = ''__SLEEP__'', props = [(''duration'', Num 10)]\<rparr>,
          \<lparr>event = ''z'', props = [(''a'', Num 1)]\<rparr>,
          \<lparr>event = ''sleep'', props = []\<rparr>]"
    unfolding a 5 6 by simp
  show ?thesis
    unfolding One_nat_def using 1 b c by (intro conjI)
qed

text \<open>
  C9, as the claim states it, fails: not every item named \<^verbatim>\<open>"sleep"\<close> becomes a delay
  step.  An item \<^verbatim>\<open>{ event: "sleep" }\<close> with no duration becomes an ordinary step
  named \<^verbatim>\<open>"sleep"\<close>, which is not the reserved delay event.
\<close>

theorem batch_sleep_without_duration_counterexample:
  "read_items (fst (batch (chain empty_heap ''c'') [\<lparr>b_event = ''sleep'', b_props = None\<rparr>]))
     (items (snd (chain empty_heap ''c'')))
     = [\<lparr>event = ''sleep'', props = []\<rparr>]
   \<and> ''sleep'' \<noteq> SLEEP_EVENT"
  by (simp add: builder_simps)

text \<open>
  Outside the statement above: the guard \<^verbatim>\<open>item.props?.duration\<close> tests the
  duration for truthiness, not for presence, so a batch item
  \<^verbatim>\<open>{ event: "sleep", props: { duration: 0 } }\<close> is not translated as the call
  \<^verbatim>\<open>sleep(0)\<close> is: it becomes an ordinary step named \<^verbatim>\<open>"sleep"\<close>.
\<close>

lemma batch_zero_duration:
  "read_items (fst (batch builder_zero [\<lparr>b_event = ''sleep'', b_props = Some 0\<rparr>]))
     (items (snd builder_zero))
     = [\<lparr>event = ''sleep'', props = [(''duration'', Num 0)]\<rparr>]
   \<and> read_items (fst (sleep builder_zero (Num 0))) (items (snd builder_zero))
     = [\<lparr>event = ''__SLEEP__'', props = [(''duration'', Num 0)]\<rparr>]"
  by (simp add: builder_zero_def builder_simps)

section \<open>The delay step\<close>

lemma awaited_step_Resolved:
  assumes "awaited_step r = Resolved v"
  shows "\<exists>c \<in> set (calls r). v = (if arg c = Undefined then Obj [] else arg c)"
proof (cases "earliest (calls r)")
  case None
  with assms show ?thesis by (simp add: awaited_step_def split: option.splits)
next
  case (Some c)
  then have "c \<in> set (calls r)" by (rule earliest_mem)
  moreover from Some assms have "v = (if arg c = Undefined then Obj [] else arg c)"
    by (simp add: awaited_step_def split: option.splits if_splits)
  ultimately show ?thesis by blast
qed

lemma calls_emit_to:
  "c \<in> set (calls (emit_to ls p)) \<Longrightarrow> \<exists>l \<in> set ls. c \<in> set (calls (l p))"
  by (induction ls) (auto simp: Let_def split: option.splits)

lemma get_prop_update_same [simp]: "get_prop (AList.update k v ps) k = v"
  by (simp add: get_prop_def update_conv')

lemma next_arg_cases: "\<not> is_object (next_arg q) \<Longrightarrow> next_arg q = Undefined"
  by (cases q) (simp_all add: next_arg_def)

text \<open>
  Every argument the continuation receives on a bridge is \<^verbatim>\<open>undefined\<close> or an
  object: a handler passes nothing or an object, and the wrapper passes objects.
\<close>

lemma body_calls_arg:
  "c \<in> set (body_calls acts) \<Longrightarrow> arg c = Undefined \<or> is_object (arg c)"
proof (induction acts)
  case Nil
  then show ?case by (simp add: body_calls_def)
next
  case (Cons a acts)
  then show ?case
    by (cases a) (auto simp: body_calls_def intro: next_arg_cases)
qed

lemma deferred_calls_arg:
  "c \<in> set (deferred_calls tacts) \<Longrightarrow> arg c = Undefined \<or> is_object (arg c)"
proof (induction tacts)
  case Nil
  then show ?case by (simp add: deferred_calls_def)
next
  case (Cons ta tacts)
  obtain t a where "ta = (t, a)" by (cases ta)
  with Cons show ?case
    by (cases a) (auto simp: deferred_calls_def intro: next_arg_cases)
qed

lemma by_wrapper_arg:
  "c \<in> set (by_wrapper (wrappedCallback ev cb p)) \<Longrightarrow> is_object (arg c)"
  by (cases "cb p" rule: conduct_cases)
     (auto simp: by_wrapper_def wrappedCallback_cases
       dest: body_calls_origin deferred_calls_origin split: if_splits)

lemma wrappedCallback_arg:
  assumes "c \<in> set (calls (wrappedCallback ev cb p))"
  shows "arg c = Undefined \<or> is_object (arg c)"
  using assms body_calls_arg deferred_calls_arg by_wrapper_arg
  unfolding calls_wrappedCallback_set by blast

lemma sleep_handler_arg:
  assumes "c \<in> set (calls (sleep_handler p))" and "is_object (get_prop p ''prev'')"
  shows "arg c = get_prop p ''prev''"
  using assms by (cases "get_prop p ''prev''") (auto simp: sleep_handler_def Let_def)

lemma bridge_step_object:
  assumes "is_object c"
    and "awaited_step (emit (emitter (bridge_with regs)) ev (AList.update ''prev'' c ps))
           = Resolved v"
  shows "is_object v"
proof -
  let ?p = "AList.update ''prev'' c ps"
  from awaited_step_Resolved [OF assms(2)]
  obtain k where k: "k \<in> set (calls (emit (emitter (bridge_with regs)) ev ?p))"
    and v: "v = (if arg k = Undefined then Obj [] else arg k)" by blast
  from k obtain l where l: "l \<in> set (emitter (bridge_with regs) ev)"
    and kl: "k \<in> set (calls (l ?p))"
    unfolding emit_def using calls_emit_to by blast
  from l have "l = sleep_handler \<or> (\<exists>e cb. l = wrappedCallback e cb)"
    by (auto simp: emitter_bridge_with split: if_splits)
  then have "arg k = Undefined \<or> is_object (arg k)"
  proof
    assume "l = sleep_handler"
    with kl assms(1) show ?thesis using sleep_handler_arg [of k ?p] by simp
  next
    assume "\<exists>e cb. l = wrappedCallback e cb"
    with kl show ?thesis using wrappedCallback_arg by blast
  qed
  with v show ?thesis by auto
qed

text \<open>So the carry-forward context on a bridge is always an object.\<close>

lemma bridge_carry_object:
  assumes "is_object c"
    and "settled (executeChain_from (emitter (bridge_with regs)) c steps) = Resolved v"
  shows "is_object v"
  using assms
proof (induction steps arbitrary: c)
  case Nil
  then show ?case by simp
next
  case (Cons s steps)
  let ?em = "emitter (bridge_with regs)"
  let ?p = "AList.update ''prev'' c (props s)"
  show ?case
  proof (cases "listenerCount ?em (event s) > 0")
    case False
    with Cons.prems(2) have "settled (executeChain_from ?em (Obj ?p) steps) = Resolved v"
      by simp
    then show ?thesis using Cons.IH [of "Obj ?p"] by simp
  next
    case True
    show ?thesis
    proof (cases "awaited_step (emit ?em (event s) ?p)")
      case (Resolved w)
      with True Cons.prems(2) have "settled (executeChain_from ?em w steps) = Resolved v"
        by (simp add: Let_def)
      moreover have "is_object w"
        using bridge_step_object [OF Cons.prems(1) Resolved] .
      ultimately show ?thesis using Cons.IH by blast
    next
      case (Rejected e)
      with True Cons.prems(2) show ?thesis by (simp add: Let_def)
    next
      case Pending
      with True Cons.prems(2) show ?thesis by (simp add: Let_def)
    qed
  qed
qed

text \<open>A run of a chain is the run of a first part, continued by the run of the rest.\<close>

lemma executeChain_from_append:
  "executeChain_from em c (xs @ ys) =
     (case settled (executeChain_from em c xs) of
        Resolved c' \<Rightarrow>
          \<lparr>settled = settled (executeChain_from em c' ys),
           emitted = emitted (executeChain_from em c xs) @ emitted (executeChain_from em c' ys),
           console = console (executeChain_from em c xs) @ console (executeChain_from em c' ys)\<rparr>
      | Rejected e \<Rightarrow> executeChain_from em c xs
      | Pending \<Rightarrow> executeChain_from em c xs)"
proof (induction xs arbitrary: c)
  case Nil
  show ?case by simp
next
  case (Cons s xs)
  show ?case
    by (simp add: Cons.IH Let_def split: outcome.splits)
qed

lemma sleep_step_run:
  assumes "em SLEEP_EVENT = [sleep_handler]" and "is_object c"
  shows "executeChain_from em c (\<lparr>event = SLEEP_EVENT, props = ps\<rparr> # rest) =
           \<lparr>settled = settled (executeChain_from em c rest),
            emitted = (SLEEP_EVENT, AList.update ''prev'' c ps)
                      # emitted (executeChain_from em c rest),
            console = console (executeChain_from em c rest)\<rparr>"
proof -
  have "awaited_step (emit em SLEEP_EVENT (AList.update ''prev'' c ps)) = Resolved c"
    using assms by (cases c) (simp_all add: emit_def sleep_handler_def awaited_step_def Let_def)
  moreover have "errors (emit em SLEEP_EVENT (AList.update ''prev'' c ps)) = []"
    using assms(1) by (simp add: emit_def sleep_handler_def Let_def)
  ultimately show ?thesis
    using assms(1) by (simp add: listenerCount_def Let_def)
qed

text \<open>
  C6.  On a bridge whose handlers are registered under names other than the reserved
  one, the delay handler that the constructor registers is the only listener of the
  reserved event.  It invokes the continuation once, with \<open>props.prev\<close>, or with
  \<^verbatim>\<open>{}\<close> when there is none.  In a chain with a sleep step between the steps
  \<open>pre\<close> and the steps \<open>post\<close>: the promise settles as it does for the chain without
  the sleep step; and when \<open>pre\<close> ends with the carry-forward context \<open>c\<close>, the
  sleep step is dispatched with \<open>prev = c\<close> and \<open>post\<close> then runs from \<open>c\<close>
  itself, so the step after the sleep step receives \<open>prev = c\<close>.  The sleep step is
  the step that \<open>sleep\<close> appends to a builder.
\<close>

theorem sleep_step_data_noop:
  assumes "SLEEP_EVENT \<notin> fst ` set regs"
  shows "emitter (bridge_with regs) SLEEP_EVENT = [sleep_handler]
       \<and> map arg (calls (sleep_handler p))
           = [if truthy (get_prop p ''prev'') then get_prop p ''prev'' else Obj []]
       \<and> settled (executeChain (emitter (bridge_with regs))
            (pre @ \<lparr>event = SLEEP_EVENT, props = [(''duration'', d)]\<rparr> # post))
           = settled (executeChain (emitter (bridge_with regs)) (pre @ post))
       \<and> (settled (executeChain (emitter (bridge_with regs)) pre) = Resolved c \<longrightarrow>
            emitted (executeChain (emitter (bridge_with regs))
               (pre @ \<lparr>event = SLEEP_EVENT, props = [(''duration'', d)]\<rparr> # post))
              = emitted (executeChain (emitter (bridge_with regs)) pre)
                @ (SLEEP_EVENT, [(''duration'', d), (''prev'', c)])
                # emitted (executeChain_from (emitter (bridge_with regs)) c post)
            \<and> settled (executeChain (emitter (bridge_with regs))
                 (pre @ \<lparr>event = SLEEP_EVENT, props = [(''duration'', d)]\<rparr> # post))
              = settled (executeChain_from (emitter (bridge_with regs)) c post))
       \<and> (wf_builder h b \<longrightarrow>
            read_items (fst (sleep (h, b) d)) (items b)
              = read_items h (items b) @ [\<lparr>event = SLEEP_EVENT, props = [(''duration'', d)]\<rparr>])"
proof -
  let ?em = "emitter (bridge_with regs)"
  let ?sl = "\<lparr>event = SLEEP_EVENT, props = [(''duration'', d)]\<rparr>"
  have only: "?em SLEEP_EVENT = [sleep_handler]"
  proof -
    have "filter (\<lambda>(e, cb). e = SLEEP_EVENT) regs = []"
      using assms by (force simp: filter_empty_conv)
    then show ?thesis by (simp add: emitter_bridge_with)
  qed
  have handler: "map arg (calls (sleep_handler p))
           = [if truthy (get_prop p ''prev'') then get_prop p ''prev'' else Obj []]"
    by (simp add: sleep_handler_def Let_def)
  have run: "executeChain_from ?em k (?sl # post) =
           \<lparr>settled = settled (executeChain_from ?em k post),
            emitted = (SLEEP_EVENT, [(''duration'', d), (''prev'', k)])
                      # emitted (executeChain_from ?em k post),
            console = console (executeChain_from ?em k post)\<rparr>"
    if "settled (executeChain_from ?em (Obj []) pre) = Resolved k" for k
  proof -
    have "is_object k"
      using bridge_carry_object [of "Obj []" regs pre k] that by simp
    with only show ?thesis
      using sleep_step_run [of ?em k "[(''duration'', d)]" post] by (simp add: SLEEP_EVENT_def)
  qed
  have same: "settled (executeChain ?em (pre @ ?sl # post)) = settled (executeChain ?em (pre @ post))"
  proof (cases "settled (executeChain_from ?em (Obj []) pre)")
    case (Resolved k)
    then show ?thesis
      by (simp add: executeChain_def executeChain_from_append [of ?em "Obj []" pre] run
          del: executeChain_from.simps)
  next
    case (Rejected e)
    then show ?thesis
      by (simp add: executeChain_def executeChain_from_append [of ?em "Obj []" pre])
  next
    case Pending
    then show ?thesis
      by (simp add: executeChain_def executeChain_from_append [of ?em "Obj []" pre])
  qed
  have thread: "emitted (executeChain ?em (pre @ ?sl # post))
              = emitted (executeChain ?em pre)
                @ (SLEEP_EVENT, [(''duration'', d), (''prev'', c)])
                # emitted (executeChain_from ?em c post)
            \<and> settled (executeChain ?em (pre @ ?sl # post))
              = settled (executeChain_from ?em c post)"
    if "settled (executeChain ?em pre) = Resolved c"
    using that
    by (simp add: executeChain_def executeChain_from_append [of ?em "Obj []" pre] run
        del: executeChain_from.simps)
  from only handler same thread show ?thesis
    by (simp add: read_items_sleep)
qed

theorem sleep_step_data_noop_witness:
  "SLEEP_EVENT \<notin> fst ` set [(''y'', noop)]
   \<and> settled (executeChain (emitter (bridge_with [(''y'', noop)]))
        [\<lparr>event = ''x'', props = [(''n'', Num 1)]\<rparr>])
       = Resolved (Obj [(''n'', Num 1), (''prev'', Obj [])])
   \<and> emitted (executeChain (emitter (bridge_with [(''y'', noop)]))
        ([\<lparr>event = ''x'', props = [(''n'', Num 1)]\<rparr>]
         @ \<lparr>event = SLEEP_EVENT, props = [(''duration'', Num 50)]\<rparr>
         # [\<lparr>event = ''y'', props = [(''v'', Num 1)]\<rparr>]))
       = [(SLEEP_EVENT, [(''duration'', Num 50), (''prev'', Obj [(''n'', Num 1), (''prev'', Obj [])])]),
          (''y'', [(''v'', Num 1), (''prev'', Obj [(''n'', Num 1), (''prev'', Obj [])])])]"
proof -
  have 1: "SLEEP_EVENT \<notin> fst ` set [(''y'', noop)]"
    by (simp add: SLEEP_EVENT_def)
  have 2: "settled (executeChain (emitter (bridge_with [(''y'', noop)]))
        [\<lparr>event = ''x'', props = [(''n'', Num 1)]\<rparr>])
       = Resolved (Obj [(''n'', Num 1), (''prev'', Obj [])])"
    by (simp add: bridge_with_def engine_simps SLEEP_EVENT_def)
  have 3: "emitted (executeChain (emitter (bridge_with [(''y'', noop)]))
        [\<lparr>event = ''x'', props = [(''n'', Num 1)]\<rparr>]) = []"
    by (simp add: bridge_with_def engine_simps SLEEP_EVENT_def)
  have 4: "emitted (executeChain_from (emitter (bridge_with [(''y'', noop)]))
              (Obj [(''n'', Num 1), (''prev'', Obj [])])
              [\<lparr>event = ''y'', props = [(''v'', Num 1)]\<rparr>])
           = [(''y'', [(''v'', Num 1), (''prev'', Obj [(''n'', Num 1), (''prev'', Obj [])])])]"
    by (simp add: bridge_with_def engine_simps SLEEP_EVENT_def noop_def)
  note noop_step = sleep_step_data_noop [OF 1, of "[]"
      "[\<lparr>event = ''x'', props = [(''n'', Num 1)]\<rparr>]" "Num 50"
      "[\<lparr>event = ''y'', props = [(''v'', Num 1)]\<rparr>]"
      "Obj [(''n'', Num 1), (''prev'', Obj [])]" empty_heap "snd (chain empty_heap ''t'')"]
  from noop_step 2
  have 5: "emitted (executeChain (emitter (bridge_with [(''y'', noop)]))
        ([\<lparr>event = ''x'', props = [(''n'', Num 1)]\<rparr>]
         @ \<lparr>event = SLEEP_EVENT, props = [(''duration'', Num 50)]\<rparr>
         # [\<lparr>event = ''y'', props = [(''v'', Num 1)]\<rparr>]))
       = emitted (executeChain (emitter (bridge_with [(''y'', noop)]))
            [\<lparr>event = ''x'', props = [(''n'', Num 1)]\<rparr>])
         @ (SLEEP_EVENT, [(''duration'', Num 50), (''prev'', Obj [(''n'', Num 1), (''prev'', Obj [])])])
         # emitted (executeChain_from (emitter (bridge_with [(''y'', noop)]))
              (Obj [(''n'', Num 1), (''prev'', Obj [])])
              [\<lparr>event = ''y'', props = [(''v'', Num 1)]\<rparr>])"
    by blast
  show ?thesis
    using 1 2 unfolding 5 3 4 by simp
qed

end
